theory Spec2Isabelle
  imports Main "HOL-Library.AList" "HOL-Library.Sublist"
begin

section \<open>JSON-shaped values and JavaScript objects\<close>

text \<open>
  The configuration fragments handled by \<^verbatim>\<open>mcp-servers.config.js\<close> and
  \<^verbatim>\<open>setup-mcp.js\<close> are plain JSON values. An object is an association list in the
  order \<^verbatim>\<open>Object.entries\<close>, the spread operator and \<^verbatim>\<open>JSON.stringify\<close> enumerate its
  keys in. A number is kept as its literal.
\<close>

datatype json =
    JNull
  | JBool bool
  | JNum string
  | JStr string
  | JArr "json list"
  | JObj "(string \<times> json) list"

type_synonym obj = "(string \<times> json) list"

definition num_is_zero :: "string \<Rightarrow> bool" where
  "num_is_zero lit =
     list_all (\<lambda>c. c \<notin> set ''123456789'')
       (takeWhile (\<lambda>c. c \<noteq> CHR ''e'' \<and> c \<noteq> CHR ''E'') lit)"

text \<open>JavaScript truthiness, as tested by \<^verbatim>\<open>if (x)\<close>, \<^verbatim>\<open>!x\<close> and \<^verbatim>\<open>x || y\<close>.\<close>

fun truthy :: "json \<Rightarrow> bool" where
  "truthy JNull = False"
| "truthy (JBool b) = b"
| "truthy (JNum n) = (\<not> num_is_zero n)"
| "truthy (JStr s) = (s \<noteq> [])"
| "truthy (JArr xs) = True"
| "truthy (JObj kvs) = True"

text \<open>
  \<^verbatim>\<open>{ ...a, ...b }\<close>: the properties of \<open>b\<close> are assigned in order onto a copy of \<open>a\<close>;
  a key already there keeps its position and takes the new value.
\<close>

definition spread :: "('k \<times> 'v) list \<Rightarrow> ('k \<times> 'v) list \<Rightarrow> ('k \<times> 'v) list" where
  "spread base extra = fold (\<lambda>(k, v) acc. AList.update k v acc) extra base"

text \<open>
  A property read \<^verbatim>\<open>o[k]\<close> with a computed key on an object literal finds the object's
  own property or, failing that, a member of \<^verbatim>\<open>Object.prototype\<close>. Every such member
  is a function or an object, hence truthy, and carries none of the fields this program
  reads.
\<close>

definition object_prototype_keys :: "string list" where
  "object_prototype_keys =
     [''constructor'', ''__defineGetter__'', ''__defineSetter__'', ''hasOwnProperty'',
      ''__lookupGetter__'', ''__lookupSetter__'', ''isPrototypeOf'',
      ''propertyIsEnumerable'', ''toString'', ''valueOf'', ''__proto__'',
      ''toLocaleString'']"

datatype 'a member = Own 'a | Inherited | Undefined

definition get_prop :: "(string \<times> 'a) list \<Rightarrow> string \<Rightarrow> 'a member" where
  "get_prop kvs k =
     (case map_of kvs k of
        Some v \<Rightarrow> Own v
      | None \<Rightarrow> if k \<in> set object_prototype_keys then Inherited else Undefined)"

section \<open>Default projectors (defaultConfigGenerators)\<close>

text \<open>
  \<^verbatim>\<open>transport.command\<close>, \<^verbatim>\<open>transport.url\<close> and \<^verbatim>\<open>transport.httpUrl\<close> are read by
  fixed names, none of which \<^verbatim>\<open>Object.prototype\<close> has; the value counts when truthy.
\<close>

definition truthy_field :: "obj \<Rightarrow> string \<Rightarrow> json option" where
  "truthy_field t k =
     (case map_of t k of Some v \<Rightarrow> if truthy v then Some v else None | None \<Rightarrow> None)"

definition claudeCode :: "obj \<Rightarrow> json option" where
  "claudeCode t =
     (if truthy_field t ''command'' \<noteq> None then Some (JObj (spread [] t))
      else case truthy_field t ''url'' of
        Some u \<Rightarrow> Some (JObj [(''type'', JStr ''sse''), (''url'', u)])
      | None \<Rightarrow>
         (case truthy_field t ''httpUrl'' of
            Some h \<Rightarrow> Some (JObj (spread [(''type'', JStr ''http''), (''url'', h)] t))
          | None \<Rightarrow> None))"

definition claudeDesktop :: "obj \<Rightarrow> json option" where
  "claudeDesktop t =
     (if truthy_field t ''command'' \<noteq> None then Some (JObj (spread [] t))
      else case truthy_field t ''url'' of
        Some u \<Rightarrow> Some (JObj [(''type'', JStr ''sse''), (''url'', u)])
      | None \<Rightarrow>
         (case truthy_field t ''httpUrl'' of
            Some h \<Rightarrow> Some (JObj (spread [(''type'', JStr ''http''), (''url'', h)] t))
          | None \<Rightarrow> None))"

definition vscode :: "obj \<Rightarrow> json option" where
  "vscode t =
     (case truthy_field t ''url'' of
        Some u \<Rightarrow> Some (JObj [(''type'', JStr ''sse''), (''url'', u)])
      | None \<Rightarrow>
         (case truthy_field t ''httpUrl'' of
            Some h \<Rightarrow> Some (JObj (spread [(''type'', JStr ''http''), (''url'', h)] t))
          | None \<Rightarrow> None))"

definition gemini :: "obj \<Rightarrow> json option" where
  "gemini t =
     (if truthy_field t ''command'' \<noteq> None then Some (JObj (spread [] t))
      else case truthy_field t ''url'' of
        Some u \<Rightarrow> Some (JObj [(''httpUrl'', u)])
      | None \<Rightarrow>
         (case truthy_field t ''httpUrl'' of
            Some h \<Rightarrow> Some (JObj (spread [(''httpUrl'', h)] t))
          | None \<Rightarrow> None))"

type_synonym generator = "obj \<Rightarrow> json option"

definition defaultConfigGenerators :: "(string \<times> generator) list" where
  "defaultConfigGenerators =
     [(''claudeCode'', claudeCode), (''claudeDesktop'', claudeDesktop),
      (''vscode'', vscode), (''gemini'', gemini)]"

text \<open>
  \<^verbatim>\<open>buildConfig\<close>: every generator of the merged table runs on the transport, and its
  result is stored under the client's name when it is truthy.
\<close>

definition buildConfig :: "obj \<Rightarrow> (string \<times> generator) list \<Rightarrow> obj" where
  "buildConfig t custom =
     (let generators = spread defaultConfigGenerators custom
      in fold (\<lambda>(client, generator) config.
                 case generator t of
                   Some clientConfig \<Rightarrow>
                     if truthy clientConfig then AList.update client clientConfig config
                     else config
                 | None \<Rightarrow> config)
              generators [])"

section \<open>The server catalog\<close>

record server =
  name :: string
  description :: string
  type :: string
  requiredTokens :: "string list option"
  config :: "json option"
  transport :: "json option"
  customGenerators :: "(string \<times> generator) list"

type_synonym registry = "(string \<times> server) list"

type_synonym tokens = "(string \<times> string) list"

definition catalog_entry ::
  "string \<Rightarrow> string \<Rightarrow> string \<Rightarrow> string list \<Rightarrow> obj \<Rightarrow> server" where
  "catalog_entry n d ty req cfg =
     \<lparr>name = n, description = d, type = ty, requiredTokens = Some req,
      config = Some (JObj cfg), transport = None, customGenerators = []\<rparr>"

text \<open>
  The catalog as the module builds it at load time. (The \<^verbatim>\<open>notionApi\<close> entry also has a
  field \<^verbatim>\<open>command: 'npx'\<close> on the descriptor itself, which nothing reads.)
\<close>

definition mcpServers :: registry where
  "mcpServers =
   [(''github'', catalog_entry ''GitHub'' ''GitHub repository management and operations''
       ''docker'' [''GITHUB_PERSONAL_ACCESS_TOKEN'']
       (buildConfig
          [(''command'', JStr ''docker''),
           (''args'', JArr [JStr ''run'', JStr ''-i'', JStr ''--rm'', JStr ''-e'',
                           JStr ''GITHUB_PERSONAL_ACCESS_TOKEN'',
                           JStr ''ghcr.io/github/github-mcp-server'']),
           (''env'', JObj [(''GITHUB_PERSONAL_ACCESS_TOKEN'',
                            JStr ''${GITHUB_PERSONAL_ACCESS_TOKEN}'')])]
          [(''vscode'', \<lambda>t. Some (JObj
              [(''url'', JStr ''https://api.githubcopilot.com/mcp/''),
               (''authorization_token'',
                JStr ''Bearer ${GITHUB_PERSONAL_ACCESS_TOKEN}'')]))])),
    (''notionApi'', catalog_entry ''Notion'' ''Notion API MCP server connection''
       ''mcp'' [''NOTION_TOKEN'']
       (buildConfig [(''url'', JStr ''https://mcp.notion.app/sse'')] [])),
    (''linear'', catalog_entry ''Linear'' ''Linear issue tracking and project management''
       ''sse'' []
       (buildConfig [(''url'', JStr ''https://mcp.linear.app/sse'')] [])),
    (''figma'', catalog_entry ''Figma'' ''Figma design file management and operations''
       ''sse'' []
       (buildConfig [(''url'', JStr ''http://127.0.0.1:3845/sse'')] [])),
    (''filesystem'', catalog_entry ''Filesystem''
       ''Read, write, and manage files and directories''
       ''npm'' [''WORKSPACE_FOLDER'']
       (buildConfig
          [(''command'', JStr ''npx''),
           (''args'', JArr [JStr ''-y'', JStr ''@modelcontextprotocol/server-filesystem'',
                           JStr ''${WORKSPACE_FOLDER}''])]
          [])),
    (''context7'', catalog_entry ''Context7''
       ''Context7 MCP server for enhanced context management''
       ''npm'' [''CONTEXT7_API_KEY'']
       (buildConfig
          [(''type'', JStr ''http''),
           (''url'', JStr ''https://mcp.context7.com/mcp''),
           (''headers'', JObj [(''CONTEXT7_API_KEY'', JStr ''${CONTEXT7_API_KEY}'')])]
          [])),
    (''slack'', catalog_entry ''Slack'' ''Slack workspace integration''
       ''sse'' [''SLACK_BOT_TOKEN'']
       (buildConfig [(''url'', JStr ''https://mcp.slack.com/sse'')] [])),
    (''postgresql'', catalog_entry ''PostgreSQL'' ''PostgreSQL database operations''
       ''npm'' [''POSTGRES_CONNECTION_STRING'']
       (buildConfig
          [(''command'', JStr ''npx''),
           (''args'', JArr [JStr ''-y'', JStr ''@modelcontextprotocol/server-postgres'',
                           JStr ''${POSTGRES_CONNECTION_STRING}''])]
          [])),
    (''puppeteer'', catalog_entry ''Puppeteer'' ''Browser automation and web scraping''
       ''npm'' []
       (buildConfig
          [(''command'', JStr ''npx''),
           (''args'', JArr [JStr ''-y'', JStr ''@modelcontextprotocol/server-puppeteer''])]
          [])),
    (''sqlite'', catalog_entry ''SQLite'' ''SQLite database operations''
       ''npm'' []
       (buildConfig
          [(''command'', JStr ''npx''),
           (''args'', JArr [JStr ''-y'', JStr ''@modelcontextprotocol/server-sqlite'',
                           JStr ''${DATABASE_PATH}''])]
          [])),
    (''customServer'', catalog_entry ''Custom Server''
       ''Example of custom configuration per client''
       ''mixed'' [''CUSTOM_API_KEY'']
       (buildConfig []
          [(''claudeCode'', \<lambda>t. Some (JObj
              [(''command'', JStr ''node''),
               (''args'', JArr [JStr ''./custom-server.js'']),
               (''env'', JObj [(''CUSTOM_API_KEY'', JStr ''${CUSTOM_API_KEY}'')])])),
           (''claudeDesktop'', \<lambda>t. Some (JObj
              [(''type'', JStr ''sse''),
               (''url'', JStr ''https://custom.example.com/sse'')])),
           (''vscode'', \<lambda>t. Some (JObj
              [(''type'', JStr ''http''),
               (''url'', JStr ''https://custom.example.com/http''),
               (''headers'', JObj [(''X-API-Key'', JStr ''${CUSTOM_API_KEY}'')])])),
           (''gemini'', \<lambda>t. Some (JObj
              [(''httpUrl'', JStr ''https://custom.example.com/stream''),
               (''headers'',
                JObj [(''Authorization'', JStr ''Bearer ${CUSTOM_API_KEY}'')])]))]))]"

text \<open>\<^verbatim>\<open>getServerConfig\<close>: \<^verbatim>\<open>mcpServers[serverName]\<close>.\<close>

definition getServerConfig :: "registry \<Rightarrow> string \<Rightarrow> server member" where
  "getServerConfig reg serverName = get_prop reg serverName"

section \<open>validateServerTokens\<close>

record validation =
  valid :: bool
  missing :: "string list"

text \<open>\<^verbatim>\<open>!tokens[token]\<close>: the token is absent, or its value is the empty string.\<close>

definition token_falsy :: "tokens \<Rightarrow> string \<Rightarrow> bool" where
  "token_falsy toks token =
     (case get_prop toks token of
        Own v \<Rightarrow> v = []
      | Inherited \<Rightarrow> False
      | Undefined \<Rightarrow> True)"

definition validateServerTokens :: "registry \<Rightarrow> string \<Rightarrow> tokens \<Rightarrow> validation" where
  "validateServerTokens reg serverName toks =
     (case get_prop reg serverName of
        Undefined \<Rightarrow> \<lparr>valid = False, missing = []\<rparr>
      | found \<Rightarrow>
         (let required =
                (case found of
                   Own s \<Rightarrow> (case requiredTokens s of Some r \<Rightarrow> r | None \<Rightarrow> [])
                 | _ \<Rightarrow> []);
              miss = filter (token_falsy toks) required
          in \<lparr>valid = (length miss = 0), missing = miss\<rparr>))"

section \<open>addServer\<close>

datatype error =
    AlreadyExists string
  | TypeError
  | SyntaxError
  | UnsupportedPlatform
  | IOFailure
  | RangeError

definition truthy_opt :: "json option \<Rightarrow> bool" where
  "truthy_opt v = (case v of Some j \<Rightarrow> truthy j | None \<Rightarrow> False)"

text \<open>
  The generators read the transport's named properties; a truthy transport that is not an
  object has none of them.
\<close>

definition own_fields :: "json \<Rightarrow> obj" where
  "own_fields j = (case j of JObj kvs \<Rightarrow> kvs | _ \<Rightarrow> [])"

text \<open>
  The order of the keys of an object. An array index is the canonical decimal numeral of
  an integer from 0 to 4294967294: digits only, no leading zero. An object enumerates
  its array-index keys first, in ascending numeric order, and its other keys after them,
  in the order of their creation.
\<close>

definition is_digit :: "char \<Rightarrow> bool" where
  "is_digit c = (c \<in> set ''0123456789'')"

definition digit_value :: "char \<Rightarrow> int" where
  "digit_value c = (if is_digit c then of_char c - 48 else 0)"

definition decimal_value :: "string \<Rightarrow> int" where
  "decimal_value s = foldl (\<lambda>a c. 10 * a + digit_value c) 0 s"

definition array_index :: "string \<Rightarrow> int option" where
  "array_index k =
     (if k \<noteq> [] \<and> list_all is_digit k \<and> (k = ''0'' \<or> hd k \<noteq> CHR ''0'')
         \<and> decimal_value k \<le> 4294967294
      then Some (decimal_value k) else None)"

text \<open>A new array-index key goes before the first key that is no smaller array index.\<close>

fun insert_index :: "int \<Rightarrow> string \<Rightarrow> 'a \<Rightarrow> (string \<times> 'a) list \<Rightarrow> (string \<times> 'a) list" where
  "insert_index i k v [] = [(k, v)]"
| "insert_index i k v ((k', v') # r) =
     (case array_index k' of
        Some j \<Rightarrow> if j < i then (k', v') # insert_index i k v r else (k, v) # (k', v') # r
      | None \<Rightarrow> (k, v) # (k', v') # r)"

text \<open>
  A data property defined on an object, as \<^verbatim>\<open>JSON.parse\<close> and an object literal do it:
  an own key keeps its place and takes the value, a new key is created in the order
  above.
\<close>

definition define_prop :: "string \<Rightarrow> 'a \<Rightarrow> (string \<times> 'a) list \<Rightarrow> (string \<times> 'a) list" where
  "define_prop k v m =
     (if k \<in> fst ` set m then AList.update k v m
      else case array_index k of
             Some i \<Rightarrow> insert_index i k v m
           | None \<Rightarrow> m @ [(k, v)])"

text \<open>
  The assignment \<^verbatim>\<open>o[k] = v\<close> on an ordinary object defines the property, but for the
  name \<^verbatim>\<open>__proto__\<close> when it is no own key: that is the accessor of
  \<^verbatim>\<open>Object.prototype\<close>, and assigning to it creates no property.
\<close>

definition set_prop :: "string \<Rightarrow> 'a \<Rightarrow> (string \<times> 'a) list \<Rightarrow> (string \<times> 'a) list" where
  "set_prop k v m =
     (if k = ''__proto__'' \<and> k \<notin> fst ` set m then m else define_prop k v m)"

text \<open>
  \<^verbatim>\<open>addServer\<close>: the guard \<^verbatim>\<open>if (mcpServers[name])\<close> reads the property through the
  prototype chain; the descriptor is stored by \<^verbatim>\<open>mcpServers[name] = serverConfig\<close>.
\<close>

definition addServer :: "registry \<Rightarrow> string \<Rightarrow> server \<Rightarrow> error + registry" where
  "addServer reg n serverConfig =
     (case get_prop reg n of
        Undefined \<Rightarrow>
          Inr (set_prop n
                 (if \<not> truthy_opt (config serverConfig) \<and> truthy_opt (transport serverConfig)
                  then serverConfig\<lparr>config :=
                         Some (JObj (buildConfig
                                 (case transport serverConfig of
                                    Some tr \<Rightarrow> own_fields tr | None \<Rightarrow> [])
                                 (customGenerators serverConfig)))\<rparr>
                  else serverConfig)
                 reg)
      | _ \<Rightarrow> Inl (AlreadyExists n))"

text \<open>\<^verbatim>\<open>getClientConfig\<close>: \<^verbatim>\<open>server?.config?.[clientName] || null\<close>.\<close>

definition getClientConfig :: "registry \<Rightarrow> string \<Rightarrow> string \<Rightarrow> json option" where
  "getClientConfig reg serverName clientName =
     (case get_prop reg serverName of
        Own s \<Rightarrow>
          (case config s of
             Some (JObj cfg) \<Rightarrow>
               (case get_prop cfg clientName of
                  Own c \<Rightarrow> if truthy c then Some c else None
                | _ \<Rightarrow> None)
           | _ \<Rightarrow> None)
      | _ \<Rightarrow> None)"

section \<open>Loading command documents (CommandConverter)\<close>

text \<open>
  The source directory as \<^verbatim>\<open>fs.readdirSync\<close> and \<^verbatim>\<open>fs.readFileSync\<close> present it. A
  file carries what \<^verbatim>\<open>yaml.load\<close> makes of its content: an exception (also when the
  file cannot be read), or a value, \<open>None\<close> being \<^verbatim>\<open>undefined\<close> (an empty document).
  A directory that cannot be listed makes \<^verbatim>\<open>readdirSync\<close> throw.
\<close>

datatype yaml_load = Throws string | Loaded "json option"

datatype entry =
    Dir string "entry list"
  | UnreadableDir string
  | File string yaml_load
  | Other string

text \<open>
  A loaded command: the document, and the three properties the loader assigns to it
  (\<^verbatim>\<open>_filePath\<close>, \<^verbatim>\<open>_subfolder\<close>, \<^verbatim>\<open>_fileName\<close>).
\<close>

record command =
  document :: json
  filePath :: string
  subfolder :: string
  fileName :: string

record loader_state =
  commands :: "command list"
  reported :: "string list"

definition endsWith :: "string \<Rightarrow> string \<Rightarrow> bool" where
  "endsWith s ending = (length ending \<le> length s \<and> drop (length s - length ending) s = ending)"

text \<open>\<^verbatim>\<open>relativePath ? path.join(relativePath, entry.name) : entry.name\<close>\<close>

definition join_relative :: "string \<Rightarrow> string \<Rightarrow> string" where
  "join_relative relativePath n = (if relativePath \<noteq> [] then relativePath @ ''/'' @ n else n)"

text \<open>
  \<^verbatim>\<open>path.parse(entry.name).name\<close> for a name ending in \<^verbatim>\<open>.yaml\<close> or \<^verbatim>\<open>.yml\<close>: the name
  without that extension, unless the name is the extension alone (a dot file).
\<close>

definition parsed_name :: "string \<Rightarrow> string" where
  "parsed_name n =
     (if endsWith n ''.yaml'' \<and> 5 < length n then take (length n - 5) n
      else if endsWith n ''.yml'' \<and> 4 < length n then take (length n - 4) n
      else n)"

text \<open>
  Assigning a property to the loaded value throws a TypeError (class bodies are strict
  code) unless the value is an object or an array.
\<close>

fun assignable :: "json option \<Rightarrow> bool" where
  "assignable (Some (JObj kvs)) = True"
| "assignable (Some (JArr xs)) = True"
| "assignable v = False"

definition load_file :: "string \<Rightarrow> string \<Rightarrow> yaml_load \<Rightarrow> loader_state \<Rightarrow> loader_state" where
  "load_file relativePath n content st =
     (case content of
        Throws msg \<Rightarrow> st\<lparr>reported := reported st @ [join_relative relativePath n]\<rparr>
      | Loaded v \<Rightarrow>
          (case v of
             Some d \<Rightarrow>
               if assignable v
               then st\<lparr>commands := commands st @
                         [\<lparr>document = d, filePath = join_relative relativePath n,
                           subfolder = relativePath, fileName = parsed_name n\<rparr>]\<rparr>
               else st\<lparr>reported := reported st @ [join_relative relativePath n]\<rparr>
           | None \<Rightarrow> st\<lparr>reported := reported st @ [join_relative relativePath n]\<rparr>))"

fun loadCommandsFromDirectory ::
    "entry list \<Rightarrow> string \<Rightarrow> loader_state \<Rightarrow> error + loader_state" where
  "loadCommandsFromDirectory [] relativePath st = Inr st"
| "loadCommandsFromDirectory (Dir n sub # entries) relativePath st =
     (case loadCommandsFromDirectory sub (join_relative relativePath n) st of
        Inl e \<Rightarrow> Inl e
      | Inr st' \<Rightarrow> loadCommandsFromDirectory entries relativePath st')"
| "loadCommandsFromDirectory (UnreadableDir n # entries) relativePath st = Inl IOFailure"
| "loadCommandsFromDirectory (File n content # entries) relativePath st =
     (if endsWith n ''.yaml'' \<or> endsWith n ''.yml''
      then loadCommandsFromDirectory entries relativePath (load_file relativePath n content st)
      else loadCommandsFromDirectory entries relativePath st)"
| "loadCommandsFromDirectory (Other n # entries) relativePath st =
     loadCommandsFromDirectory entries relativePath st"

text \<open>
  \<^verbatim>\<open>loadSourceCommands\<close>; \<open>None\<close> is a source directory that does not exist.
\<close>

definition loadSourceCommands :: "entry list option \<Rightarrow> error + loader_state" where
  "loadSourceCommands sourceDir =
     (case sourceDir of
        None \<Rightarrow> Inr \<lparr>commands = [], reported = []\<rparr>
      | Some entries \<Rightarrow>
          loadCommandsFromDirectory entries [] \<lparr>commands = [], reported = []\<rparr>)"

text \<open>
  The batch of documents of a directory tree, in the order of traversal: every
  \<^verbatim>\<open>.yaml\<close> or \<^verbatim>\<open>.yml\<close> file with the folder it was found in.
\<close>

fun documents :: "entry list \<Rightarrow> string \<Rightarrow> (string \<times> string \<times> yaml_load) list" where
  "documents [] relativePath = []"
| "documents (Dir n sub # entries) relativePath =
     documents sub (join_relative relativePath n) @ documents entries relativePath"
| "documents (UnreadableDir n # entries) relativePath = documents entries relativePath"
| "documents (File n content # entries) relativePath =
     (if endsWith n ''.yaml'' \<or> endsWith n ''.yml''
      then (relativePath, n, content) # documents entries relativePath
      else documents entries relativePath)"
| "documents (Other n # entries) relativePath = documents entries relativePath"

fun readable :: "entry list \<Rightarrow> bool" where
  "readable [] = True"
| "readable (Dir n sub # entries) = (readable sub \<and> readable entries)"
| "readable (UnreadableDir n # entries) = False"
| "readable (File n content # entries) = readable entries"
| "readable (Other n # entries) = readable entries"

text \<open>A document loads when \<^verbatim>\<open>yaml.load\<close> returns an object or an array.\<close>

fun loads :: "yaml_load \<Rightarrow> bool" where
  "loads (Throws msg) = False"
| "loads (Loaded v) = assignable v"

fun loaded_command :: "string \<times> string \<times> yaml_load \<Rightarrow> command option" where
  "loaded_command (rel, n, Loaded (Some d)) =
     (if assignable (Some d)
      then Some \<lparr>document = d, filePath = join_relative rel n, subfolder = rel,
                 fileName = parsed_name n\<rparr>
      else None)"
| "loaded_command (rel, n, content) = None"

fun failure_report :: "string \<times> string \<times> yaml_load \<Rightarrow> string option" where
  "failure_report (rel, n, content) =
     (if loads content then None else Some (join_relative rel n))"

section \<open>Serialisation (JSON.stringify)\<close>

text \<open>
  Strings are byte strings. \<^verbatim>\<open>JSON.stringify\<close> escapes the double quote, the backslash
  and the control characters below U+0020, and writes no white space.
\<close>

definition hex_digit :: "nat \<Rightarrow> char" where
  "hex_digit n = ''0123456789abcdef'' ! (n mod 16)"

definition escape_char :: "char \<Rightarrow> string" where
  "escape_char c =
     (if c = CHR 0x22 then [CHR 0x5C, CHR 0x22]
      else if c = CHR 0x5C then [CHR 0x5C, CHR 0x5C]
      else if c = CHR 0x08 then [CHR 0x5C, CHR ''b'']
      else if c = CHR 0x0C then [CHR 0x5C, CHR ''f'']
      else if c = CHR 0x0A then [CHR 0x5C, CHR ''n'']
      else if c = CHR 0x0D then [CHR 0x5C, CHR ''r'']
      else if c = CHR 0x09 then [CHR 0x5C, CHR ''t'']
      else if (of_char c :: nat) < 0x20 then
        [CHR 0x5C, CHR ''u'', CHR ''0'', CHR ''0'',
         hex_digit (of_char c div 16), hex_digit (of_char c)]
      else [c])"

definition quote :: "string \<Rightarrow> string" where
  "quote s = CHR 0x22 # concat (map escape_char s) @ [CHR 0x22]"

fun JSON_stringify :: "json \<Rightarrow> string"
  and stringify_elements :: "json list \<Rightarrow> string"
  and stringify_members :: "(string \<times> json) list \<Rightarrow> string" where
  "JSON_stringify JNull = ''null''"
| "JSON_stringify (JBool b) = (if b then ''true'' else ''false'')"
| "JSON_stringify (JNum lit) = lit"
| "JSON_stringify (JStr s) = quote s"
| "JSON_stringify (JArr xs) = ''['' @ stringify_elements xs @ '']''"
| "JSON_stringify (JObj kvs) = ''{'' @ stringify_members kvs @ ''}''"
| "stringify_elements [] = []"
| "stringify_elements [x] = JSON_stringify x"
| "stringify_elements (x # y # r) = JSON_stringify x @ '','' @ stringify_elements (y # r)"
| "stringify_members [] = []"
| "stringify_members [(k, v)] = quote k @ '':'' @ JSON_stringify v"
| "stringify_members ((k, v) # m # r) =
     quote k @ '':'' @ JSON_stringify v @ '','' @ stringify_members (m # r)"

section \<open>Parsing (JSON.parse)\<close>

definition is_ws :: "char \<Rightarrow> bool" where
  "is_ws c = (c = CHR '' '' \<or> c = CHR 0x09 \<or> c = CHR 0x0A \<or> c = CHR 0x0D)"

definition skip_ws :: "string \<Rightarrow> string" where
  "skip_ws s = dropWhile is_ws s"

definition hex_value :: "char \<Rightarrow> nat option" where
  "hex_value c =
     (let n = (of_char c :: nat)
      in if 48 \<le> n \<and> n \<le> 57 then Some (n - 48)
         else if 97 \<le> n \<and> n \<le> 102 then Some (n - 87)
         else if 65 \<le> n \<and> n \<le> 70 then Some (n - 55)
         else None)"

text \<open>
  The code unit of a \<^verbatim>\<open>\uXXXX\<close> escape, as bytes: itself below U+0080, its UTF-8
  encoding above.
\<close>

definition code_unit :: "nat \<Rightarrow> string" where
  "code_unit n =
     (if n < 0x80 then [char_of n]
      else if n < 0x800 then [char_of (0xC0 + n div 64), char_of (0x80 + n mod 64)]
      else [char_of (0xE0 + n div 4096), char_of (0x80 + (n div 64) mod 64),
            char_of (0x80 + n mod 64)])"

definition unescape :: "char \<Rightarrow> char option" where
  "unescape e =
     (if e = CHR 0x22 then Some (CHR 0x22)
      else if e = CHR 0x5C then Some (CHR 0x5C)
      else if e = CHR ''/'' then Some (CHR ''/'')
      else if e = CHR ''b'' then Some (CHR 0x08)
      else if e = CHR ''f'' then Some (CHR 0x0C)
      else if e = CHR ''n'' then Some (CHR 0x0A)
      else if e = CHR ''r'' then Some (CHR 0x0D)
      else if e = CHR ''t'' then Some (CHR 0x09)
      else None)"

definition hex4 :: "char \<Rightarrow> char \<Rightarrow> char \<Rightarrow> char \<Rightarrow> nat option" where
  "hex4 a b c d =
     (case (hex_value a, hex_value b, hex_value c, hex_value d) of
        (Some x, Some y, Some z, Some w) \<Rightarrow> Some (((x * 16 + y) * 16 + z) * 16 + w)
      | _ \<Rightarrow> None)"

text \<open>
  The characters of a string literal after its opening quote, up to the closing quote:
  the string and the rest of the input. A raw control character, an unknown escape and
  the end of the input are syntax errors.
\<close>

fun parse_chars :: "string \<Rightarrow> (string \<times> string) option" where
  "parse_chars [] = None"
| "parse_chars (c # cs) =
     (if c = CHR 0x22 then Some ([], cs)
      else if c = CHR 0x5C then
        (case cs of
           [] \<Rightarrow> None
         | e # r \<Rightarrow>
             if e = CHR ''u'' then
               (case r of
                  h1 # h2 # h3 # h4 # r' \<Rightarrow>
                    (case hex4 h1 h2 h3 h4 of
                       None \<Rightarrow> None
                     | Some n \<Rightarrow>
                         (case parse_chars r' of
                            None \<Rightarrow> None
                          | Some (s, rest) \<Rightarrow> Some (code_unit n @ s, rest)))
                | _ \<Rightarrow> None)
             else
               (case unescape e of
                  None \<Rightarrow> None
                | Some ch \<Rightarrow>
                    (case parse_chars r of
                       None \<Rightarrow> None
                     | Some (s, rest) \<Rightarrow> Some (ch # s, rest))))
      else if (of_char c :: nat) < 0x20 then None
      else (case parse_chars cs of
              None \<Rightarrow> None
            | Some (s, rest) \<Rightarrow> Some (c # s, rest)))"

definition valid_exponent :: "string \<Rightarrow> bool" where
  "valid_exponent s =
     (case s of
        [] \<Rightarrow> True
      | c # r \<Rightarrow>
          (c = CHR ''e'' \<or> c = CHR ''E'') \<and>
          (let ds = (case r of
                       [] \<Rightarrow> []
                     | d # r2 \<Rightarrow> if d = CHR ''+'' \<or> d = CHR ''-'' then r2 else r)
           in ds \<noteq> [] \<and> list_all is_digit ds))"

definition valid_fraction :: "string \<Rightarrow> bool" where
  "valid_fraction s =
     (case s of
        [] \<Rightarrow> True
      | c # r \<Rightarrow>
          if c = CHR ''.'' then takeWhile is_digit r \<noteq> [] \<and> valid_exponent (dropWhile is_digit r)
          else valid_exponent s)"

text \<open>The JSON number grammar: no leading zero, digits after a point and in an exponent.\<close>

definition valid_number :: "string \<Rightarrow> bool" where
  "valid_number s =
     (let u = (case s of [] \<Rightarrow> [] | c # r \<Rightarrow> if c = CHR ''-'' then r else s);
          ds = takeWhile is_digit u
      in (ds = ''0'' \<or> (ds \<noteq> [] \<and> take 1 ds \<noteq> ''0'')) \<and> valid_fraction (dropWhile is_digit u))"

definition is_num_char :: "char \<Rightarrow> bool" where
  "is_num_char c = (c \<in> set ''0123456789+-.eE'')"

definition parse_number :: "string \<Rightarrow> (json \<times> string) option" where
  "parse_number s =
     (let lit = takeWhile is_num_char s
      in if valid_number lit then Some (JNum lit, dropWhile is_num_char s) else None)"

text \<open>
  Recursive descent. The first argument bounds the depth of the recursion; \<open>JSON_parse\<close>
  gives it more than any input can use. A key met again keeps its place and takes the
  later value.
\<close>

fun parse_value :: "nat \<Rightarrow> string \<Rightarrow> (json \<times> string) option"
  and parse_elements :: "nat \<Rightarrow> json list \<Rightarrow> string \<Rightarrow> (json \<times> string) option"
  and parse_members :: "nat \<Rightarrow> obj \<Rightarrow> string \<Rightarrow> (json \<times> string) option" where
  "parse_value 0 s = None"
| "parse_value (Suc n) s =
     (case skip_ws s of
        [] \<Rightarrow> None
      | c # cs \<Rightarrow>
          if c = CHR 0x22 then
            (case parse_chars cs of None \<Rightarrow> None | Some (str, rest) \<Rightarrow> Some (JStr str, rest))
          else if c = CHR ''['' then
            (case skip_ws cs of
               [] \<Rightarrow> None
             | d # ds \<Rightarrow> if d = CHR '']'' then Some (JArr [], ds)
                         else parse_elements n [] (d # ds))
          else if c = CHR ''{'' then
            (case skip_ws cs of
               [] \<Rightarrow> None
             | d # ds \<Rightarrow> if d = CHR ''}'' then Some (JObj [], ds)
                         else parse_members n [] (d # ds))
          else if take 4 (c # cs) = ''true'' then Some (JBool True, drop 4 (c # cs))
          else if take 5 (c # cs) = ''false'' then Some (JBool False, drop 5 (c # cs))
          else if take 4 (c # cs) = ''null'' then Some (JNull, drop 4 (c # cs))
          else parse_number (c # cs))"
| "parse_elements 0 acc s = None"
| "parse_elements (Suc n) acc s =
     (case parse_value n s of
        None \<Rightarrow> None
      | Some (v, rest) \<Rightarrow>
          (case skip_ws rest of
             [] \<Rightarrow> None
           | c # cs \<Rightarrow>
               if c = CHR '','' then parse_elements n (acc @ [v]) cs
               else if c = CHR '']'' then Some (JArr (acc @ [v]), cs)
               else None))"
| "parse_members 0 acc s = None"
| "parse_members (Suc n) acc s =
     (case skip_ws s of
        [] \<Rightarrow> None
      | c # cs \<Rightarrow>
          if c \<noteq> CHR 0x22 then None
          else
            (case parse_chars cs of
               None \<Rightarrow> None
             | Some (k, rest) \<Rightarrow>
                 (case skip_ws rest of
                    [] \<Rightarrow> None
                  | d # ds \<Rightarrow>
                      if d \<noteq> CHR '':'' then None
                      else
                        (case parse_value n ds of
                           None \<Rightarrow> None
                         | Some (v, rest') \<Rightarrow>
                             (case skip_ws rest' of
                                [] \<Rightarrow> None
                              | e # es \<Rightarrow>
                                  if e = CHR '','' then parse_members n (AList.update k v acc) es
                                  else if e = CHR ''}'' then
                                    Some (JObj (AList.update k v acc), es)
                                  else None)))))"

definition JSON_parse :: "string \<Rightarrow> json option" where
  "JSON_parse s =
     (case parse_value (2 * length s + 2) s of
        None \<Rightarrow> None
      | Some (v, rest) \<Rightarrow> if skip_ws rest = [] then Some v else None)"

section \<open>Token substitution (substituteTokens)\<close>

text \<open>
  \<^verbatim>\<open>String.prototype.replace\<close> expands the replacement text at every match:
  \<^verbatim>\<open>$$\<close> is a dollar sign, \<^verbatim>\<open>$&\<close> the matched text, \<^verbatim>\<open>$`\<close> the text before the match
  and \<^verbatim>\<open>$'\<close> the text after it. The pattern has no capture group, so every other
  \<^verbatim>\<open>$\<close> stands for itself.
\<close>

fun expand :: "string \<Rightarrow> string \<Rightarrow> string \<Rightarrow> string \<Rightarrow> string" where
  "expand before matched after [] = []"
| "expand before matched after [c] = [c]"
| "expand before matched after (c # d # r) =
     (if c = CHR ''$'' \<and> d = CHR ''$'' then CHR ''$'' # expand before matched after r
      else if c = CHR ''$'' \<and> d = CHR ''&'' then matched @ expand before matched after r
      else if c = CHR ''$'' \<and> d = CHR 0x60 then before @ expand before matched after r
      else if c = CHR ''$'' \<and> d = CHR 0x27 then after @ expand before matched after r
      else c # expand before matched after (d # r))"

definition placeholder :: "string \<Rightarrow> string" where
  "placeholder key = ''${'' @ key @ ''}''"

text \<open>
  \<^verbatim>\<open>substituted.replace(new RegExp(`\\$\\{${key}\\}`, 'g'), value)\<close>: every match of the
  pattern, found from left to right in the text as it was before the call, is replaced.
  The pattern is taken as the literal text \<^verbatim>\<open>${key}\<close>, which is what the regular
  expression matches when the key has no character that is special in a regular
  expression; the statements below are about such keys (\<open>token_name\<close>). The argument
  \<open>before\<close> is the part of the text already passed.
\<close>

function replace_token :: "string \<Rightarrow> string \<Rightarrow> string \<Rightarrow> string \<Rightarrow> string" where
  "replace_token key val before [] = []"
| "replace_token key val before (c # cs) =
     (if prefix (placeholder key) (c # cs)
      then expand before (placeholder key) (drop (length (placeholder key)) (c # cs)) val
           @ replace_token key val (before @ placeholder key)
               (drop (length (placeholder key)) (c # cs))
      else c # replace_token key val (before @ [c]) cs)"
  by pat_completeness auto
termination
  by (relation "measure (\<lambda>(key, val, before, s). length s)") (auto simp: placeholder_def)

definition token_char :: "char \<Rightarrow> bool" where
  "token_char c =
     (c \<in> set ''ABCDEFGHIJKLMNOPQRSTUVWXYZabcdefghijklmnopqrstuvwxyz0123456789_'')"

definition token_name :: "string \<Rightarrow> bool" where
  "token_name key = list_all token_char key"

text \<open>
  The loop of \<^verbatim>\<open>substituteTokens\<close> over \<^verbatim>\<open>Object.entries(tokens)\<close>, on the serialised
  text.
\<close>

definition substitute_text :: "tokens \<Rightarrow> string \<Rightarrow> string" where
  "substitute_text toks configStr =
     fold (\<lambda>(key, val) substituted. replace_token key val [] substituted) toks configStr"

text \<open>
  \<^verbatim>\<open>substituteTokens\<close>. \<^verbatim>\<open>JSON.stringify(undefined)\<close> is \<^verbatim>\<open>undefined\<close>, on which
  \<^verbatim>\<open>replace\<close> is a TypeError and \<^verbatim>\<open>JSON.parse\<close> a SyntaxError.
\<close>

definition substituteTokens :: "json option \<Rightarrow> tokens \<Rightarrow> error + json" where
  "substituteTokens cfg toks =
     (case cfg of
        None \<Rightarrow> if toks = [] then Inl SyntaxError else Inl TypeError
      | Some c \<Rightarrow>
          (case JSON_parse (substitute_text toks (JSON_stringify c)) of
             None \<Rightarrow> Inl SyntaxError
           | Some v \<Rightarrow> Inr v))"
section \<open>Numbers as JavaScript holds them\<close>

text \<open>
  \<^verbatim>\<open>JSON.parse\<close> reads a number literal as the IEEE 754 double nearest to its decimal value
  (ties to the even significand), and \<^verbatim>\<open>JSON.stringify\<close> writes a double with the fewest
  decimal digits that read back as the same double. A finite double is
  \<open>Finite n q\<close>, standing for \<open>n * 2 ^ q\<close>: zero is \<open>Finite 0 0\<close>, a normal number has
  \<open>2 ^ 52 \<le> n < 2 ^ 53\<close> and \<open>- 1074 \<le> q \<le> 971\<close>, a subnormal one has
  \<open>0 < n < 2 ^ 52\<close> and \<open>q = - 1074\<close>. The sign is kept apart. A positive rational is a
  pair of a numerator and a positive denominator.
\<close>

datatype number = Finite int int | Infinite

type_synonym ratio = "int \<times> int"

text \<open>A rational times a power of the base, the exponent being any integer.\<close>

definition times_pow :: "int \<Rightarrow> int \<Rightarrow> ratio \<Rightarrow> ratio" where
  "times_pow base e r =
     (if 0 \<le> e then (fst r * base ^ nat e, snd r) else (fst r, snd r * base ^ nat (- e)))"

text \<open>The number of binary digits of a positive integer.\<close>

function bit_length :: "int \<Rightarrow> int" where
  "bit_length a = (if a \<le> 0 then 0 else 1 + bit_length (a div 2))"
  by auto
termination
  by (relation "measure nat") auto

declare bit_length.simps [simp del]

text \<open>The integer \<open>d\<close> with \<open>2 ^ d \<le> r < 2 ^ (d + 1)\<close>, for a positive rational \<open>r\<close>.\<close>

definition floor_log2 :: "ratio \<Rightarrow> int" where
  "floor_log2 r =
     (let d = bit_length (fst r) - bit_length (snd r);
          s = times_pow 2 (- d) r
      in if snd s \<le> fst s then d else d - 1)"

text \<open>The nearest integer, the even one of two equally near.\<close>

definition round_half_even :: "ratio \<Rightarrow> int" where
  "round_half_even r =
     (let d = fst r div snd r; m = fst r mod snd r
      in if 2 * m < snd r then d
         else if snd r < 2 * m then d + 1
         else if even d then d else d + 1)"

text \<open>
  The double nearest to a rational: the significand has 53 bits from the exponent
  \<open>- 1022\<close> upwards and fewer below (gradual underflow); a value that rounds to
  \<open>2 ^ 1024\<close> or more is infinite.
\<close>

definition to_double :: "ratio \<Rightarrow> number" where
  "to_double r =
     (if fst r = 0 then Finite 0 0
      else
        (let p = max (floor_log2 r) (- 1022);
             q = p - 52;
             n = round_half_even (times_pow 2 (- q) r)
         in if n = 0 then Finite 0 0
            else if n = 2 ^ 53 then (if 1023 \<le> p then Infinite else Finite (2 ^ 52) (q + 1))
            else if 1023 < p then Infinite
            else Finite n q))"

text \<open>
  The value of a number literal without its sign: integer digits, then optionally a point
  and fraction digits, then optionally an exponent.
\<close>

definition literal_ratio :: "string \<Rightarrow> ratio" where
  "literal_ratio lit =
     (let u = (case lit of [] \<Rightarrow> [] | c # r \<Rightarrow> if c = CHR ''-'' then r else lit);
          ip = takeWhile is_digit u;
          r1 = dropWhile is_digit u;
          pt = (case r1 of [] \<Rightarrow> False | c # r \<Rightarrow> c = CHR ''.'');
          fp = (if pt then takeWhile is_digit (tl r1) else []);
          r2 = (if pt then dropWhile is_digit (tl r1) else r1);
          ex = (case r2 of
                  [] \<Rightarrow> 0
                | c # r3 \<Rightarrow>
                    (case r3 of
                       [] \<Rightarrow> 0
                     | d # r4 \<Rightarrow>
                         if d = CHR ''-'' then - decimal_value r4
                         else if d = CHR ''+'' then decimal_value r4
                         else decimal_value r3))
      in times_pow 10 (ex - int (length fp)) (decimal_value (ip @ fp), 1))"

text \<open>The decimal digits of a natural number.\<close>

function digits :: "int \<Rightarrow> string" where
  "digits n =
     (if n < 10 then [''0123456789'' ! nat n]
      else digits (n div 10) @ [''0123456789'' ! nat (n mod 10)])"
  by auto
termination
  by (relation "measure nat") auto

declare digits.simps [simp del]

text \<open>The integer \<open>d\<close> with \<open>10 ^ d \<le> r < 10 ^ (d + 1)\<close>, for a positive rational \<open>r\<close>.\<close>

function floor_log10_down :: "int \<Rightarrow> int \<Rightarrow> int" where
  "floor_log10_down a b =
     (if b \<le> a \<or> a \<le> 0 then 0 else floor_log10_down (a * 10) b - 1)"
  by auto
termination
  by (relation "measure (\<lambda>(a, b). nat (b - a))") auto

declare floor_log10_down.simps [simp del]

definition floor_log10 :: "ratio \<Rightarrow> int" where
  "floor_log10 r =
     (if snd r \<le> fst r then int (length (digits (fst r div snd r))) - 1
      else floor_log10_down (fst r) (snd r))"

text \<open>The value of a finite double.\<close>

definition number_ratio :: "number \<Rightarrow> ratio" where
  "number_ratio x = (case x of Finite n q \<Rightarrow> times_pow 2 q (n, 1) | Infinite \<Rightarrow> (0, 1))"

text \<open>
  \<^verbatim>\<open>Number::toString\<close>: the digits \<open>s\<close> and the exponent \<open>e\<close> with \<open>s * 10 ^ e\<close> reading
  back as the double, for the least number \<open>k\<close> of digits. With \<open>k\<close> digits only the two
  decimals next to the value can read back as it; of two that do, the nearer one is
  taken, and the even one of two equally near.
\<close>

definition candidate :: "number \<Rightarrow> int \<Rightarrow> (int \<times> int) option" where
  "candidate x k =
     (let r = number_ratio x;
          e = floor_log10 r - k + 1;
          s = times_pow 10 (- e) r;
          lo = fst s div snd s;
          m = fst s mod snd s;
          hi = lo + 1;
          ok_lo = (to_double (times_pow 10 e (lo, 1)) = x);
          ok_hi = (to_double (times_pow 10 e (hi, 1)) = x)
      in if ok_lo \<and> ok_hi
         then Some (if 2 * m < snd s then lo
                    else if snd s < 2 * m then hi
                    else if even lo then lo else hi, e)
         else if ok_lo then Some (lo, e)
         else if ok_hi then Some (hi, e)
         else None)"

text \<open>
  The exact decimal expansion of a double, which reads back as it: the search for fewer
  digits goes no further than its length.
\<close>

definition exact_decimal :: "number \<Rightarrow> int \<times> int" where
  "exact_decimal x =
     (case x of
        Finite n q \<Rightarrow> if 0 \<le> q then (n * 2 ^ nat q, 0) else (n * 5 ^ nat (- q), q)
      | Infinite \<Rightarrow> (0, 0))"

fun shortest :: "number \<Rightarrow> int \<Rightarrow> nat \<Rightarrow> int \<times> int" where
  "shortest x k 0 = exact_decimal x"
| "shortest x k (Suc fuel) =
     (case candidate x k of Some c \<Rightarrow> c | None \<Rightarrow> shortest x (k + 1) fuel)"

text \<open>
  The notation: with \<open>k\<close> digits and the decimal point after the \<open>n\<close>-th digit, plain
  digits for \<open>k \<le> n \<le> 21\<close>, a point inside the digits for \<open>0 < n \<le> 21\<close>, leading
  zeros for \<open>- 6 < n \<le> 0\<close>, and the exponent notation otherwise.
\<close>

definition format_number :: "int \<times> int \<Rightarrow> string" where
  "format_number c =
     (let all = digits (fst c);
          ds = rev (dropWhile (\<lambda>d. d = CHR ''0'') (rev all));
          k = int (length ds);
          n = snd c + int (length all)
      in if k \<le> n \<and> n \<le> 21 then ds @ replicate (nat (n - k)) (CHR ''0'')
         else if 0 < n \<and> n \<le> 21 then take (nat n) ds @ ''.'' @ drop (nat n) ds
         else if - 6 < n \<and> n \<le> 0 then ''0.'' @ replicate (nat (- n)) (CHR ''0'') @ ds
         else (let es = (if n - 1 < 0 then ''-'' else ''+'') @ digits (abs (n - 1))
               in if k = 1 then ds @ ''e'' @ es
                  else hd ds # ''.'' @ tl ds @ ''e'' @ es))"

definition number_to_string :: "number \<Rightarrow> string" where
  "number_to_string x =
     (case x of
        Infinite \<Rightarrow> ''Infinity''
      | Finite n q \<Rightarrow>
          if n = 0 then ''0''
          else format_number (shortest x 1 (length (digits (fst (exact_decimal x))))))"

text \<open>
  The literal \<^verbatim>\<open>JSON.stringify\<close> writes for the number a literal denotes; \<open>None\<close> when
  the number is infinite, which is written as \<^verbatim>\<open>null\<close>. Minus zero is written as \<^verbatim>\<open>0\<close>.
\<close>

definition negative :: "string \<Rightarrow> bool" where
  "negative lit = (case lit of [] \<Rightarrow> False | c # r \<Rightarrow> c = CHR ''-'')"

fun number_text :: "bool \<Rightarrow> number \<Rightarrow> string option" where
  "number_text neg Infinite = None"
| "number_text neg (Finite n q) =
     Some ((if neg \<and> n \<noteq> 0 then ''-'' else []) @ number_to_string (Finite n q))"

definition canonical :: "string \<Rightarrow> string option" where
  "canonical lit = number_text (negative lit) (to_double (literal_ratio lit))"


section \<open>Writing client configuration files (MCPSetup)\<close>

datatype platform = Darwin | Linux | OtherPlatform

text \<open>
  The configuration file before the run: missing, present but not JSON
  (\<^verbatim>\<open>fs.readJson\<close> throws), or holding a JSON text, given by its syntax: the numbers as
  they are written, the members of an object in the order of the text.
\<close>

datatype config_file = Absent | Unparsable | Existing json

text \<open>
  \<^verbatim>\<open>fs.readJson\<close>: the value \<^verbatim>\<open>JSON.parse\<close> makes of the text. A number becomes a double,
  kept here as the literal \<^verbatim>\<open>JSON.stringify\<close> writes for it (an infinite one as the
  literal read); an object gets its members one by one, a key met again taking the later
  value.
\<close>

definition read_number :: "string \<Rightarrow> string" where
  "read_number lit = (case canonical lit of Some s \<Rightarrow> s | None \<Rightarrow> lit)"

fun read_json :: "json \<Rightarrow> json"
  and read_elements :: "json list \<Rightarrow> json list"
  and read_members :: "(string \<times> json) list \<Rightarrow> obj \<Rightarrow> obj" where
  "read_json JNull = JNull"
| "read_json (JBool b) = JBool b"
| "read_json (JNum lit) = JNum (read_number lit)"
| "read_json (JStr s) = JStr s"
| "read_json (JArr xs) = JArr (read_elements xs)"
| "read_json (JObj kvs) = JObj (read_members kvs [])"
| "read_elements [] = []"
| "read_elements (x # r) = read_json x # read_elements r"
| "read_members [] acc = acc"
| "read_members ((k, v) # r) acc = read_members r (define_prop k (read_json v) acc)"

text \<open>
  \<^verbatim>\<open>fs.writeJson\<close>: the JSON that \<^verbatim>\<open>JSON.stringify\<close> writes for a value. A number is
  written in its shortest form, an infinite one as \<^verbatim>\<open>null\<close>.
\<close>

definition write_number :: "string \<Rightarrow> json" where
  "write_number lit = (case canonical lit of Some s \<Rightarrow> JNum s | None \<Rightarrow> JNull)"

fun write_json :: "json \<Rightarrow> json"
  and write_elements :: "json list \<Rightarrow> json list"
  and write_members :: "(string \<times> json) list \<Rightarrow> (string \<times> json) list" where
  "write_json JNull = JNull"
| "write_json (JBool b) = JBool b"
| "write_json (JNum lit) = write_number lit"
| "write_json (JStr s) = JStr s"
| "write_json (JArr xs) = JArr (write_elements xs)"
| "write_json (JObj kvs) = JObj (write_members kvs)"
| "write_elements [] = []"
| "write_elements (x # r) = write_json x # write_elements r"
| "write_members [] = []"
| "write_members ((k, v) # r) = (k, write_json v) # write_members r"

record mcp_setup =
  tokens :: tokens
  selectedServers :: "string list"
  selectedClients :: "string list"
  dryRun :: bool

text \<open>
  \<^verbatim>\<open>getServerConfig(serverName).config.<client>\<close>. Reading \<^verbatim>\<open>config\<close> of a server that
  is not there, or the client of a config that is undefined or null, is a TypeError.
\<close>

definition client_fragment :: "registry \<Rightarrow> string \<Rightarrow> string \<Rightarrow> error + json option" where
  "client_fragment reg client serverName =
     (case getServerConfig reg serverName of
        Own s \<Rightarrow>
          (case config s of
             None \<Rightarrow> Inl TypeError
           | Some JNull \<Rightarrow> Inl TypeError
           | Some (JObj cfg) \<Rightarrow> Inr (map_of cfg client)
           | Some other \<Rightarrow> Inr None)
      | Inherited \<Rightarrow> Inl TypeError
      | Undefined \<Rightarrow> Inl TypeError)"

text \<open>
  The filesystem server is substituted with
  \<^verbatim>\<open>{ ...this.tokens, WORKSPACE_FOLDER: workspaceFolder }\<close>, the folder being the answer to
  the prompt.
\<close>

definition tokens_for :: "mcp_setup \<Rightarrow> string \<Rightarrow> string \<Rightarrow> tokens" where
  "tokens_for this workspaceFolder serverName =
     (if serverName = ''filesystem''
      then spread (tokens this) [(''WORKSPACE_FOLDER'', workspaceFolder)]
      else tokens this)"

text \<open>
  The text of a value as \<^verbatim>\<open>Array.prototype.join\<close> takes it for an element: nothing for
  \<^verbatim>\<open>null\<close>, the elements joined by commas for an array. An object has the text
  \<^verbatim>\<open>[object Object]\<close>; with an own member \<^verbatim>\<open>toString\<close>, which is no function, the
  conversion is a TypeError.
\<close>

fun element_text :: "json \<Rightarrow> string option"
  and join :: "json list \<Rightarrow> string option" where
  "element_text JNull = Some []"
| "element_text (JBool b) = Some (if b then ''true'' else ''false'')"
| "element_text (JNum lit) =
     Some (case canonical lit of
             Some s \<Rightarrow> s
           | None \<Rightarrow> if negative lit then ''-Infinity'' else ''Infinity'')"
| "element_text (JStr s) = Some s"
| "element_text (JArr xs) = join xs"
| "element_text (JObj kvs) =
     (if ''toString'' \<in> fst ` set kvs then None else Some ''[object Object]'')"
| "join [] = Some []"
| "join (x # r) =
     (case element_text x of
        None \<Rightarrow> None
      | Some t \<Rightarrow>
          (case join r of
             None \<Rightarrow> None
           | Some ts \<Rightarrow> Some (if r = [] then t else t @ '','' @ ts)))"

text \<open>
  White space and line terminators, as UTF-8: tab, line feed, vertical tab, form feed,
  carriage return, space, U+00A0, U+1680, U+2000 to U+200A, U+2028, U+2029, U+202F,
  U+205F, U+3000 and U+FEFF.
\<close>

definition white_space :: "string list" where
  "white_space =
     [[CHR 0x09], [CHR 0x0A], [CHR 0x0B], [CHR 0x0C], [CHR 0x0D], [CHR 0x20],
      [CHR 0xC2, CHR 0xA0], [CHR 0xE1, CHR 0x9A, CHR 0x80],
      [CHR 0xE2, CHR 0x80, CHR 0x80], [CHR 0xE2, CHR 0x80, CHR 0x81],
      [CHR 0xE2, CHR 0x80, CHR 0x82], [CHR 0xE2, CHR 0x80, CHR 0x83],
      [CHR 0xE2, CHR 0x80, CHR 0x84], [CHR 0xE2, CHR 0x80, CHR 0x85],
      [CHR 0xE2, CHR 0x80, CHR 0x86], [CHR 0xE2, CHR 0x80, CHR 0x87],
      [CHR 0xE2, CHR 0x80, CHR 0x88], [CHR 0xE2, CHR 0x80, CHR 0x89],
      [CHR 0xE2, CHR 0x80, CHR 0x8A], [CHR 0xE2, CHR 0x80, CHR 0xA8],
      [CHR 0xE2, CHR 0x80, CHR 0xA9], [CHR 0xE2, CHR 0x80, CHR 0xAF],
      [CHR 0xE2, CHR 0x81, CHR 0x9F], [CHR 0xE3, CHR 0x80, CHR 0x80],
      [CHR 0xEF, CHR 0xBB, CHR 0xBF]]"

definition space_width :: "string list \<Rightarrow> string \<Rightarrow> nat" where
  "space_width spaces s =
     (case find (\<lambda>w. prefix w s) spaces of None \<Rightarrow> 0 | Some w \<Rightarrow> length w)"

function strip :: "string list \<Rightarrow> string \<Rightarrow> string" where
  "strip spaces s =
     (if space_width spaces s = 0 \<or> s = [] then s
      else strip spaces (drop (space_width spaces s) s))"
  by pat_completeness auto
termination
  by (relation "measure (\<lambda>(spaces, s). length s)") auto

definition trim :: "string \<Rightarrow> string" where
  "trim s = rev (strip (map rev white_space) (rev (strip white_space s)))"

text \<open>
  The integer a double is, if it is one; and the number a string converts to
  (\<^verbatim>\<open>StringToNumber\<close>), if that is an integer and not below zero: the empty string is
  zero, \<^verbatim>\<open>0x\<close>, \<^verbatim>\<open>0o\<close> and \<^verbatim>\<open>0b\<close> begin a hexadecimal, an octal and a binary numeral,
  and a decimal numeral may have a sign, a point without digits on one side, and an
  exponent.
\<close>

definition integral :: "number \<Rightarrow> int option" where
  "integral x =
     (case x of
        Infinite \<Rightarrow> None
      | Finite n q \<Rightarrow>
          if 0 \<le> q then Some (n * 2 ^ nat q)
          else if n mod 2 ^ nat (- q) = 0 then Some (n div 2 ^ nat (- q))
          else None)"

definition radix_value :: "int \<Rightarrow> string \<Rightarrow> int option" where
  "radix_value b s =
     (if s \<noteq> []
         \<and> list_all (\<lambda>c. case hex_value c of Some d \<Rightarrow> int d < b | None \<Rightarrow> False) s
      then Some (foldl (\<lambda>a c. b * a + (case hex_value c of Some d \<Rightarrow> int d | None \<Rightarrow> 0)) 0 s)
      else None)"

definition unsigned_decimal :: "string \<Rightarrow> bool" where
  "unsigned_decimal s =
     (let ip = takeWhile is_digit s; r1 = dropWhile is_digit s
      in case r1 of
           [] \<Rightarrow> ip \<noteq> []
         | c # r \<Rightarrow>
             if c = CHR ''.''
             then (ip \<noteq> [] \<or> takeWhile is_digit r \<noteq> [])
                  \<and> valid_exponent (dropWhile is_digit r)
             else ip \<noteq> [] \<and> valid_exponent r1)"

definition natural_of_literal :: "bool \<Rightarrow> string \<Rightarrow> int option" where
  "natural_of_literal neg u =
     (case integral (to_double (literal_ratio u)) of
        Some n \<Rightarrow> if n = 0 \<or> \<not> neg then Some n else None
      | None \<Rightarrow> None)"

definition natural_of_string :: "string \<Rightarrow> int option" where
  "natural_of_string s =
     (let t = trim s
      in if t = [] then Some 0
         else if take 2 t = ''0x'' \<or> take 2 t = ''0X'' then radix_value 16 (drop 2 t)
         else if take 2 t = ''0o'' \<or> take 2 t = ''0O'' then radix_value 8 (drop 2 t)
         else if take 2 t = ''0b'' \<or> take 2 t = ''0B'' then radix_value 2 (drop 2 t)
         else (let u = (if hd t = CHR ''-'' \<or> hd t = CHR ''+'' then tl t else t)
               in if unsigned_decimal u then natural_of_literal (hd t = CHR ''-'') u
                  else None))"

text \<open>
  \<^verbatim>\<open>a.length = v\<close> on an array: the value is converted to a number, which must be an
  integer from 0 to 4294967295, or else the assignment is a RangeError; an object
  converts to no number, and with an own member \<^verbatim>\<open>toString\<close> its conversion is a
  TypeError. The array is cut to the new length or filled up with holes, which are
  written as \<^verbatim>\<open>null\<close>.
\<close>

definition set_length :: "json list \<Rightarrow> json \<Rightarrow> error + json" where
  "set_length xs v =
     (case (case v of
              JNull \<Rightarrow> Inr (Some 0)
            | JBool b \<Rightarrow> Inr (Some (if b then 1 else 0))
            | JNum lit \<Rightarrow> Inr (natural_of_literal (negative lit) lit)
            | JStr s \<Rightarrow> Inr (natural_of_string s)
            | JArr ys \<Rightarrow>
                (case join ys of None \<Rightarrow> Inl TypeError | Some t \<Rightarrow> Inr (natural_of_string t))
            | JObj kvs \<Rightarrow>
                if ''toString'' \<in> fst ` set kvs then Inl TypeError else Inr None) of
        Inl e \<Rightarrow> Inl e
      | Inr None \<Rightarrow> Inl RangeError
      | Inr (Some n) \<Rightarrow>
          if 4294967295 < n then Inl RangeError
          else Inr (JArr (take (nat n) xs @ replicate (nat n - length xs) JNull)))"

text \<open>
  \<^verbatim>\<open>config.mcpServers[serverName] = serverConfig\<close> on the (truthy) section. An object
  takes the entry. An array takes an element when the name is an array index, growing
  by holes as far as needed, and a new length when the name is \<^verbatim>\<open>length\<close>; any other
  name becomes a named property, which is no part of the JSON written. On a string, a
  number or \<^verbatim>\<open>true\<close> the assignment is a TypeError in strict code.
\<close>

definition assign_entry :: "json \<Rightarrow> string \<Rightarrow> json \<Rightarrow> error + json" where
  "assign_entry section serverName serverConfig =
     (case section of
        JObj entries \<Rightarrow> Inr (JObj (set_prop serverName serverConfig entries))
      | JArr xs \<Rightarrow>
          (case array_index serverName of
             Some i \<Rightarrow>
               Inr (JArr (if i < int (length xs) then xs[nat i := serverConfig]
                          else xs @ replicate (nat i - length xs) JNull @ [serverConfig]))
           | None \<Rightarrow>
               if serverName = ''length'' then set_length xs serverConfig
               else Inr (JArr xs))
      | other \<Rightarrow> Inl TypeError)"

fun add_servers_desktop ::
    "registry \<Rightarrow> mcp_setup \<Rightarrow> string \<Rightarrow> string list \<Rightarrow> json \<Rightarrow> error + json" where
  "add_servers_desktop reg this workspaceFolder [] section = Inr section"
| "add_servers_desktop reg this workspaceFolder (serverName # rest) section =
     (case client_fragment reg ''claudeDesktop'' serverName of
        Inl e \<Rightarrow> Inl e
      | Inr fragment \<Rightarrow>
          (case substituteTokens fragment (tokens_for this workspaceFolder serverName) of
             Inl e \<Rightarrow> Inl e
           | Inr serverConfig \<Rightarrow>
               (case assign_entry section serverName serverConfig of
                  Inl e \<Rightarrow> Inl e
                | Inr section' \<Rightarrow>
                    add_servers_desktop reg this workspaceFolder rest section')))"

text \<open>The enumerable own properties of a value, as the spread operator copies them.\<close>

fun decimal :: "nat \<Rightarrow> string" where
  "decimal n =
     (if n < 10 then [''0123456789'' ! n]
      else decimal (n div 10) @ [''0123456789'' ! (n mod 10)])"

definition spread_value :: "json \<Rightarrow> obj" where
  "spread_value j =
     (case j of
        JObj kvs \<Rightarrow> spread [] kvs
      | JArr xs \<Rightarrow> map (\<lambda>i. (decimal i, xs ! i)) [0..<length xs]
      | JStr s \<Rightarrow> map (\<lambda>i. (decimal i, JStr [s ! i])) [0..<length s]
      | other \<Rightarrow> [])"

text \<open>\<^verbatim>\<open>existingConfig.mcpServers || {}\<close>\<close>

definition section_or_empty :: "obj \<Rightarrow> json" where
  "section_or_empty kvs =
     (case truthy_field kvs ''mcpServers'' of Some section \<Rightarrow> section | None \<Rightarrow> JObj [])"

text \<open>
  \<^verbatim>\<open>setupClaudeDesktop\<close>: whether the run succeeded, and the JSON written to the file
  (\<open>None\<close> when nothing is written). Every exception inside the \<^verbatim>\<open>try\<close> block ends the
  run with \<^verbatim>\<open>false\<close> before anything is written. The section the loop fills is the
  object that \<^verbatim>\<open>config.mcpServers\<close> refers to.
\<close>

definition setupClaudeDesktop ::
    "registry \<Rightarrow> mcp_setup \<Rightarrow> platform \<Rightarrow> config_file \<Rightarrow> string \<Rightarrow> bool \<times> json option" where
  "setupClaudeDesktop reg this os existing workspaceFolder =
     (if os = OtherPlatform then (False, None)
      else case existing of
        Unparsable \<Rightarrow> (False, None)
      | Existing JNull \<Rightarrow> (False, None)
      | other \<Rightarrow>
          (let section0 = (case other of
                             Existing file \<Rightarrow>
                               section_or_empty (own_fields (read_json file))
                           | _ \<Rightarrow> JObj []);
               cfg = (case other of
                        Existing file \<Rightarrow>
                          AList.update ''mcpServers'' section0 (spread_value (read_json file))
                      | _ \<Rightarrow> [(''mcpServers'', section0)])
           in case add_servers_desktop reg this workspaceFolder (selectedServers this)
                     section0 of
                Inl e \<Rightarrow> (False, None)
              | Inr section \<Rightarrow>
                  (True, if dryRun this then None
                         else Some (write_json
                                (JObj (AList.update ''mcpServers'' section cfg))))))"

text \<open>
  The loop of \<^verbatim>\<open>setupGeminiCLI\<close>: a server without a gemini projection is skipped with a
  warning.
\<close>

fun add_servers_gemini ::
    "registry \<Rightarrow> mcp_setup \<Rightarrow> string \<Rightarrow> string list \<Rightarrow> json \<Rightarrow> error + json" where
  "add_servers_gemini reg this workspaceFolder [] section = Inr section"
| "add_servers_gemini reg this workspaceFolder (serverName # rest) section =
     (case client_fragment reg ''gemini'' serverName of
        Inl e \<Rightarrow> Inl e
      | Inr fragment \<Rightarrow>
          if \<not> truthy_opt fragment
          then add_servers_gemini reg this workspaceFolder rest section
          else
            (case substituteTokens fragment (tokens_for this workspaceFolder serverName) of
               Inl e \<Rightarrow> Inl e
             | Inr serverConfig \<Rightarrow>
                 (case assign_entry section serverName serverConfig of
                    Inl e \<Rightarrow> Inl e
                  | Inr section' \<Rightarrow>
                      add_servers_gemini reg this workspaceFolder rest section')))"

text \<open>
  \<^verbatim>\<open>setupGeminiCLI\<close>. The file read is used as it is: \<^verbatim>\<open>config.mcpServers\<close> on null
  is a TypeError, and so is the assignment \<^verbatim>\<open>config.mcpServers = {}\<close> on a string, a
  number or a boolean; on an array the section becomes a named property, which is no part
  of the JSON written.
\<close>

definition setupGeminiCLI ::
    "registry \<Rightarrow> mcp_setup \<Rightarrow> config_file \<Rightarrow> string \<Rightarrow> bool \<times> json option" where
  "setupGeminiCLI reg this existing workspaceFolder =
     (case (case existing of Absent \<Rightarrow> Some (JObj []) | Unparsable \<Rightarrow> None
                           | Existing file \<Rightarrow> Some (read_json file)) of
        None \<Rightarrow> (False, None)
      | Some (JObj kvs) \<Rightarrow>
          (case add_servers_gemini reg this workspaceFolder (selectedServers this)
                  (section_or_empty kvs) of
             Inl e \<Rightarrow> (False, None)
           | Inr section \<Rightarrow>
               (True, if dryRun this then None
                      else Some (write_json (JObj (AList.update ''mcpServers'' section kvs)))))
      | Some (JArr xs) \<Rightarrow>
          (case add_servers_gemini reg this workspaceFolder (selectedServers this)
                  (JObj []) of
             Inl e \<Rightarrow> (False, None)
           | Inr section \<Rightarrow>
               (True, if dryRun this then None else Some (write_json (JArr xs))))
      | Some other \<Rightarrow> (False, None))"

section \<open>The VS Code pipeline (setupVSCode)\<close>

text \<open>
  One match of \<^verbatim>\<open>/\{\{([^}]+)\}\}/\<close> at the head of the text: two opening braces, the
  longest run of characters other than a closing brace, which must not be empty, and two
  closing braces. The result is the run and the text after the match.
\<close>

definition brace_match :: "string \<Rightarrow> (string \<times> string) option" where
  "brace_match s =
     (if prefix ''{{'' s
      then (let run = takeWhile (\<lambda>c. c \<noteq> CHR ''}'') (drop 2 s);
                rest = dropWhile (\<lambda>c. c \<noteq> CHR ''}'') (drop 2 s)
            in if run \<noteq> [] \<and> prefix ''}}'' rest then Some (run, drop 2 rest) else None)
      else None)"

text \<open>
  \<^verbatim>\<open>configStr.replace(/\{\{([^}]+)\}\}/g, '${input:$1}')\<close>: in the replacement text only
  \<^verbatim>\<open>$1\<close> is special.
\<close>

function convert_placeholders :: "string \<Rightarrow> string" where
  "convert_placeholders [] = []"
| "convert_placeholders (c # cs) =
     (case brace_match (c # cs) of
        Some (run, rest) \<Rightarrow>
          ''${input:'' @ run @ ''}''
          @ convert_placeholders (drop (length run + 4) (c # cs))
      | None \<Rightarrow> c # convert_placeholders cs)"
  by pat_completeness auto
termination
  by (relation "measure length") auto

text \<open>The body of the loop of \<^verbatim>\<open>setupVSCode\<close> for one server that has a vscode projection.\<close>

definition vscode_server_config :: "json \<Rightarrow> tokens \<Rightarrow> error + json" where
  "vscode_server_config fragment toks =
     (case substituteTokens (Some fragment) toks of
        Inl e \<Rightarrow> Inl e
      | Inr serverConfig \<Rightarrow>
          (case JSON_parse (convert_placeholders (JSON_stringify serverConfig)) of
             None \<Rightarrow> Inl SyntaxError
           | Some converted \<Rightarrow> Inr converted))"

fun add_servers_vscode :: "registry \<Rightarrow> mcp_setup \<Rightarrow> string list \<Rightarrow> obj \<Rightarrow> error + obj" where
  "add_servers_vscode reg this [] section = Inr section"
| "add_servers_vscode reg this (serverName # rest) section =
     (case client_fragment reg ''vscode'' serverName of
        Inl e \<Rightarrow> Inl e
      | Inr fragment \<Rightarrow>
          (case fragment of
             None \<Rightarrow> add_servers_vscode reg this rest section
           | Some f \<Rightarrow>
               if \<not> truthy f then add_servers_vscode reg this rest section
               else
                 (case vscode_server_config f (tokens this) of
                    Inl e \<Rightarrow> Inl e
                  | Inr serverConfig \<Rightarrow>
                      add_servers_vscode reg this rest
                        (AList.update serverName serverConfig section))))"

text \<open>\<^verbatim>\<open>setupVSCode\<close>: the file \<^verbatim>\<open>.vscode/mcp.json\<close> is written afresh.\<close>

definition setupVSCode :: "registry \<Rightarrow> mcp_setup \<Rightarrow> bool \<times> json option" where
  "setupVSCode reg this =
     (case add_servers_vscode reg this (selectedServers this) [] of
        Inl e \<Rightarrow> (False, None)
      | Inr section \<Rightarrow>
          (True, if dryRun this then None else Some (JObj [(''mcpServers'', JObj section)])))"

section \<open>Well-formed values, token sets and templates\<close>

text \<open>
  A value of the program has distinct keys in every object, and its numbers are JSON
  number literals.
\<close>

fun wf_json :: "json \<Rightarrow> bool"
  and wf_elements :: "json list \<Rightarrow> bool"
  and wf_members :: "(string \<times> json) list \<Rightarrow> bool" where
  "wf_json JNull = True"
| "wf_json (JBool b) = True"
| "wf_json (JNum lit) = (valid_number lit \<and> list_all is_num_char lit)"
| "wf_json (JStr s) = True"
| "wf_json (JArr xs) = wf_elements xs"
| "wf_json (JObj kvs) = (distinct (map fst kvs) \<and> wf_members kvs)"
| "wf_elements [] = True"
| "wf_elements [x] = wf_json x"
| "wf_elements (x # y # r) = (wf_json x \<and> wf_elements (y # r))"
| "wf_members [] = True"
| "wf_members [(k, v)] = wf_json v"
| "wf_members ((k, v) # m # r) = (wf_json v \<and> wf_members (m # r))"

text \<open>A function applied to every string value of a JSON value (keys are left alone).\<close>

fun map_strings :: "(string \<Rightarrow> string) \<Rightarrow> json \<Rightarrow> json"
  and map_elements :: "(string \<Rightarrow> string) \<Rightarrow> json list \<Rightarrow> json list"
  and map_members :: "(string \<Rightarrow> string) \<Rightarrow> (string \<times> json) list \<Rightarrow> (string \<times> json) list" where
  "map_strings h JNull = JNull"
| "map_strings h (JBool b) = JBool b"
| "map_strings h (JNum lit) = JNum lit"
| "map_strings h (JStr s) = JStr (h s)"
| "map_strings h (JArr xs) = JArr (map_elements h xs)"
| "map_strings h (JObj kvs) = JObj (map_members h kvs)"
| "map_elements h [] = []"
| "map_elements h [x] = [map_strings h x]"
| "map_elements h (x # y # r) = map_strings h x # map_elements h (y # r)"
| "map_members h [] = []"
| "map_members h [(k, v)] = [(k, map_strings h v)]"
| "map_members h ((k, v) # m # r) = (k, map_strings h v) # map_members h (m # r)"

text \<open>A predicate on every string value, and one on every object key.\<close>

fun all_strings :: "(string \<Rightarrow> bool) \<Rightarrow> json \<Rightarrow> bool"
  and all_strings_elements :: "(string \<Rightarrow> bool) \<Rightarrow> json list \<Rightarrow> bool"
  and all_strings_members :: "(string \<Rightarrow> bool) \<Rightarrow> (string \<times> json) list \<Rightarrow> bool" where
  "all_strings p JNull = True"
| "all_strings p (JBool b) = True"
| "all_strings p (JNum lit) = True"
| "all_strings p (JStr s) = p s"
| "all_strings p (JArr xs) = all_strings_elements p xs"
| "all_strings p (JObj kvs) = all_strings_members p kvs"
| "all_strings_elements p [] = True"
| "all_strings_elements p [x] = all_strings p x"
| "all_strings_elements p (x # y # r) = (all_strings p x \<and> all_strings_elements p (y # r))"
| "all_strings_members p [] = True"
| "all_strings_members p [(k, v)] = all_strings p v"
| "all_strings_members p ((k, v) # m # r) = (all_strings p v \<and> all_strings_members p (m # r))"

fun all_keys :: "(string \<Rightarrow> bool) \<Rightarrow> json \<Rightarrow> bool"
  and all_keys_elements :: "(string \<Rightarrow> bool) \<Rightarrow> json list \<Rightarrow> bool"
  and all_keys_members :: "(string \<Rightarrow> bool) \<Rightarrow> (string \<times> json) list \<Rightarrow> bool" where
  "all_keys p JNull = True"
| "all_keys p (JBool b) = True"
| "all_keys p (JNum lit) = True"
| "all_keys p (JStr s) = True"
| "all_keys p (JArr xs) = all_keys_elements p xs"
| "all_keys p (JObj kvs) = all_keys_members p kvs"
| "all_keys_elements p [] = True"
| "all_keys_elements p [x] = all_keys p x"
| "all_keys_elements p (x # y # r) = (all_keys p x \<and> all_keys_elements p (y # r))"
| "all_keys_members p [] = True"
| "all_keys_members p [(k, v)] = (p k \<and> all_keys p v)"
| "all_keys_members p ((k, v) # m # r) = (p k \<and> all_keys p v \<and> all_keys_members p (m # r))"

definition dollar_free :: "string \<Rightarrow> bool" where
  "dollar_free s = (CHR ''$'' \<notin> set s)"

text \<open>Text that \<^verbatim>\<open>JSON.stringify\<close> writes as it is: no quote, backslash or control character.\<close>

definition plain_char :: "char \<Rightarrow> bool" where
  "plain_char c = (c \<noteq> CHR 0x22 \<and> c \<noteq> CHR 0x5C \<and> (0x20 :: nat) \<le> of_char c)"

definition plain_text :: "string \<Rightarrow> bool" where
  "plain_text s = list_all plain_char s"

text \<open>
  A token set whose names are made of letters, digits and underscores and whose values
  are plain text without a dollar sign.
\<close>

definition safe_tokens :: "tokens \<Rightarrow> bool" where
  "safe_tokens toks =
     list_all (\<lambda>(key, val). token_name key \<and> plain_text val \<and> dollar_free val) toks"

text \<open>
  The token names cover the placeholders of a string: every dollar sign of the string
  begins a placeholder \<^verbatim>\<open>${NAME}\<close> whose name is one of them.
\<close>

fun covered :: "string list \<Rightarrow> string \<Rightarrow> bool" where
  "covered names [] = True"
| "covered names (c # cs) =
     ((if c = CHR ''$'' then list_ex (\<lambda>key. prefix (''{'' @ key @ ''}'') cs) names else True)
      \<and> covered names cs)"

text \<open>
  Templates: a string of a fragment as a sequence of literal text without dollar signs
  and braces, placeholders \<^verbatim>\<open>${NAME}\<close> and placeholders \<^verbatim>\<open>{{NAME}}\<close>.
\<close>

datatype segment = Lit string | Tok string | Inp string

datatype template =
    TNull
  | TBool bool
  | TNum string
  | TStr "segment list"
  | TArr "template list"
  | TObj "(string \<times> template) list"

definition brace_free :: "string \<Rightarrow> bool" where
  "brace_free s = (CHR ''{'' \<notin> set s \<and> CHR ''}'' \<notin> set s)"

fun render_segment :: "segment \<Rightarrow> string" where
  "render_segment (Lit text) = text"
| "render_segment (Tok key) = placeholder key"
| "render_segment (Inp n) = ''{{'' @ n @ ''}}''"

fun wf_segment :: "segment \<Rightarrow> bool" where
  "wf_segment (Lit text) = (dollar_free text \<and> brace_free text)"
| "wf_segment (Tok key) = token_name key"
| "wf_segment (Inp n) = (n \<noteq> [] \<and> dollar_free n \<and> brace_free n)"

text \<open>
  What the claim expects of a string: a placeholder \<^verbatim>\<open>${NAME}\<close> becomes the value of the
  token when the token set has it and stays as it is otherwise, and a placeholder
  \<^verbatim>\<open>{{NAME}}\<close> becomes \<^verbatim>\<open>${input:NAME}\<close> when \<open>vs\<close> is set (the VS Code pipeline) and stays
  as it is otherwise.
\<close>

fun resolve_segment :: "bool \<Rightarrow> tokens \<Rightarrow> segment \<Rightarrow> string" where
  "resolve_segment vs toks (Lit text) = text"
| "resolve_segment vs toks (Tok key) =
     (case map_of toks key of Some val \<Rightarrow> val | None \<Rightarrow> placeholder key)"
| "resolve_segment vs toks (Inp n) =
     (if vs then ''${input:'' @ n @ ''}'' else ''{{'' @ n @ ''}}'')"

fun render_json :: "template \<Rightarrow> json"
  and render_elements :: "template list \<Rightarrow> json list"
  and render_members :: "(string \<times> template) list \<Rightarrow> (string \<times> json) list" where
  "render_json TNull = JNull"
| "render_json (TBool b) = JBool b"
| "render_json (TNum lit) = JNum lit"
| "render_json (TStr segs) = JStr (concat (map render_segment segs))"
| "render_json (TArr xs) = JArr (render_elements xs)"
| "render_json (TObj kvs) = JObj (render_members kvs)"
| "render_elements [] = []"
| "render_elements (x # r) = render_json x # render_elements r"
| "render_members [] = []"
| "render_members ((k, v) # r) = (k, render_json v) # render_members r"

fun resolve_json :: "bool \<Rightarrow> tokens \<Rightarrow> template \<Rightarrow> json"
  and resolve_elements :: "bool \<Rightarrow> tokens \<Rightarrow> template list \<Rightarrow> json list"
  and resolve_members ::
    "bool \<Rightarrow> tokens \<Rightarrow> (string \<times> template) list \<Rightarrow> (string \<times> json) list" where
  "resolve_json vs toks TNull = JNull"
| "resolve_json vs toks (TBool b) = JBool b"
| "resolve_json vs toks (TNum lit) = JNum lit"
| "resolve_json vs toks (TStr segs) = JStr (concat (map (resolve_segment vs toks) segs))"
| "resolve_json vs toks (TArr xs) = JArr (resolve_elements vs toks xs)"
| "resolve_json vs toks (TObj kvs) = JObj (resolve_members vs toks kvs)"
| "resolve_elements vs toks [] = []"
| "resolve_elements vs toks (x # r) = resolve_json vs toks x # resolve_elements vs toks r"
| "resolve_members vs toks [] = []"
| "resolve_members vs toks ((k, v) # r) =
     (k, resolve_json vs toks v) # resolve_members vs toks r"

fun wf_template :: "template \<Rightarrow> bool"
  and wf_template_elements :: "template list \<Rightarrow> bool"
  and wf_template_members :: "(string \<times> template) list \<Rightarrow> bool" where
  "wf_template TNull = True"
| "wf_template (TBool b) = True"
| "wf_template (TNum lit) = (valid_number lit \<and> list_all is_num_char lit)"
| "wf_template (TStr segs) = list_all wf_segment segs"
| "wf_template (TArr xs) = wf_template_elements xs"
| "wf_template (TObj kvs) = (distinct (map fst kvs) \<and> wf_template_members kvs)"
| "wf_template_elements [] = True"
| "wf_template_elements (x # r) = (wf_template x \<and> wf_template_elements r)"
| "wf_template_members [] = True"
| "wf_template_members ((k, v) # r) =
     (dollar_free k \<and> brace_free k \<and> wf_template v \<and> wf_template_members r)"

text \<open>Token values for the VS Code pipeline: safe, and without braces.\<close>

definition brace_free_tokens :: "tokens \<Rightarrow> bool" where
  "brace_free_tokens toks = list_all (\<lambda>(key, val). brace_free val) toks"

text \<open>
  What reading the file and writing it again makes of a value of the file.
\<close>

definition round_trip :: "json \<Rightarrow> json" where
  "round_trip v = write_json (read_json v)"

text \<open>
  A value that reading and writing leave as it is: its numbers are written as
  \<^verbatim>\<open>JSON.stringify\<close> writes them, and the keys of its objects are distinct and are no array
  indices.
\<close>

fun steady :: "json \<Rightarrow> bool"
  and steady_elements :: "json list \<Rightarrow> bool"
  and steady_members :: "(string \<times> json) list \<Rightarrow> bool" where
  "steady JNull = True"
| "steady (JBool b) = True"
| "steady (JNum lit) = (canonical lit = Some lit)"
| "steady (JStr s) = True"
| "steady (JArr xs) = steady_elements xs"
| "steady (JObj kvs) = (distinct (map fst kvs) \<and> steady_members kvs)"
| "steady_elements [] = True"
| "steady_elements (x # r) = (steady x \<and> steady_elements r)"
| "steady_members [] = True"
| "steady_members ((k, v) # r) = (array_index k = None \<and> steady v \<and> steady_members r)"
section \<open>Properties of objects and spreading\<close>

lemma update_fresh: "k \<notin> fst ` set al \<Longrightarrow> AList.update k v al = al @ [(k, v)]"
  by (induction al) auto

lemma spread_Cons: "spread base ((k, v) # t) = spread (AList.update k v base) t"
  by (simp add: spread_def)

lemma spread_Nil: "spread base [] = base"
  by (simp add: spread_def)

lemma spread_append_distinct:
  "distinct (map fst (base @ t)) \<Longrightarrow> spread base t = base @ t"
proof (induction t arbitrary: base)
  case Nil
  then show ?case by (simp add: spread_Nil)
next
  case (Cons a t)
  obtain k v where a: "a = (k, v)" by (cases a)
  from Cons.prems a have fresh: "k \<notin> fst ` set base" by auto
  from Cons.prems a have "distinct (map fst ((base @ [(k, v)]) @ t))" by auto
  from Cons.IH[OF this] fresh a show ?case
    by (simp add: spread_Cons update_fresh)
qed

lemma map_of_spread:
  "distinct (map fst t) \<Longrightarrow> map_of (spread base t) = map_of base ++ map_of t"
proof (induction t arbitrary: base)
  case Nil
  then show ?case by (simp add: spread_Nil)
next
  case (Cons a t)
  obtain k v where a: "a = (k, v)" by (cases a)
  from Cons.prems a have k: "k \<notin> dom (map_of t)" and d: "distinct (map fst t)"
    by (auto simp: dom_map_of_conv_image_fst)
  have "map_of (spread base (a # t)) = (map_of base)(k \<mapsto> v) ++ map_of t"
    using Cons.IH[OF d, of "AList.update k v base"] a
    by (auto simp: spread_Cons update_conv' fun_eq_iff map_add_def split: option.splits)
  also have "\<dots> = map_of base ++ map_of (a # t)"
    using k a by (auto simp: map_add_def fun_eq_iff split: option.splits)
  finally show ?case .
qed

lemma distinct_spread:
  "distinct (map fst base) \<Longrightarrow> distinct (map fst (spread base t))"
proof (induction t arbitrary: base)
  case Nil
  then show ?case by (simp add: spread_Nil)
next
  case (Cons a t)
  obtain k v where a: "a = (k, v)" by (cases a)
  show ?case using Cons a by (simp add: spread_Cons distinct_update)
qed

section \<open>Properties of property assignment\<close>

lemma map_of_insert_index:
  "k \<notin> fst ` set m \<Longrightarrow> map_of (insert_index i k v m) = (map_of m)(k \<mapsto> v)"
proof (induction m)
  case Nil
  then show ?case by simp
next
  case (Cons a m)
  obtain k' v' where a: "a = (k', v')" by (cases a)
  with Cons.prems have ne: "k' \<noteq> k" and fresh: "k \<notin> fst ` set m" by auto
  have step: "map_of ((k', v') # insert_index i k v m) = (map_of ((k', v') # m))(k \<mapsto> v)"
    using Cons.IH[OF fresh] ne by (simp add: fun_eq_iff)
  show ?case
  proof (cases "array_index k'")
    case None
    then show ?thesis using a by (simp add: fun_eq_iff)
  next
    case (Some j)
    then show ?thesis using a step by (cases "j < i") (simp_all add: fun_eq_iff)
  qed
qed

lemma map_of_define_prop:
  "map_of (define_prop k v m) = (map_of m)(k \<mapsto> v)"
proof (cases "k \<in> fst ` set m")
  case True
  then show ?thesis by (simp add: define_prop_def update_conv')
next
  case False
  show ?thesis
  proof (cases "array_index k")
    case None
    from False have "map_of m k = None" by (simp add: map_of_eq_None_iff)
    then have "map_of (m @ [(k, v)]) = (map_of m)(k \<mapsto> v)"
      by (auto simp: fun_eq_iff map_add_def split: option.splits)
    with None False show ?thesis by (simp add: define_prop_def)
  next
    case (Some i)
    with False map_of_insert_index[OF False] show ?thesis by (simp add: define_prop_def)
  qed
qed

lemma map_of_set_prop:
  "k \<in> fst ` set m \<or> k \<noteq> ''__proto__'' \<Longrightarrow>
   map_of (set_prop k v m) = (map_of m)(k \<mapsto> v)"
  by (auto simp: set_prop_def map_of_define_prop)

lemma map_of_set_prop_other:
  "k' \<noteq> k \<Longrightarrow> map_of (set_prop k v m) k' = map_of m k'"
  by (simp add: set_prop_def map_of_define_prop)

lemma define_prop_last:
  "k \<notin> fst ` set m \<Longrightarrow> array_index k = None \<Longrightarrow> define_prop k v m = m @ [(k, v)]"
  by (simp add: define_prop_def)

lemma set_prop_last:
  "k \<notin> fst ` set m \<Longrightarrow> k \<noteq> ''__proto__'' \<Longrightarrow> array_index k = None \<Longrightarrow>
   set_prop k v m = m @ [(k, v)]"
  by (simp add: set_prop_def define_prop_def)

section \<open>Projection of a transport\<close>

text \<open>
  Claim C3. For a transport whose \<^verbatim>\<open>url\<close> is populated (truthy) and whose \<^verbatim>\<open>command\<close>
  is not, the claudeCode, claudeDesktop and vscode default projectors return exactly
  \<^verbatim>\<open>{type:'sse', url}\<close> with that url and the gemini default projector returns exactly
  \<^verbatim>\<open>{httpUrl: url}\<close>; all four results are non-null.
\<close>

theorem url_transport_projection:
  assumes "map_of t ''url'' = Some u" and "truthy u"
    and "truthy_field t ''command'' = None"
  shows "claudeCode t = Some (JObj [(''type'', JStr ''sse''), (''url'', u)])
       \<and> claudeDesktop t = Some (JObj [(''type'', JStr ''sse''), (''url'', u)])
       \<and> vscode t = Some (JObj [(''type'', JStr ''sse''), (''url'', u)])
       \<and> gemini t = Some (JObj [(''httpUrl'', u)])"
  using assms
  by (simp add: claudeCode_def claudeDesktop_def vscode_def gemini_def truthy_field_def)

theorem url_transport_projection_witness:
  "map_of [(''url'', JStr ''https://x'')] ''url'' = Some (JStr ''https://x'')
   \<and> truthy (JStr ''https://x'')
   \<and> truthy_field [(''url'', JStr ''https://x'')] ''command'' = None
   \<and> claudeCode [(''url'', JStr ''https://x'')]
       = Some (JObj [(''type'', JStr ''sse''), (''url'', JStr ''https://x'')])
   \<and> claudeDesktop [(''url'', JStr ''https://x'')]
       = Some (JObj [(''type'', JStr ''sse''), (''url'', JStr ''https://x'')])
   \<and> vscode [(''url'', JStr ''https://x'')]
       = Some (JObj [(''type'', JStr ''sse''), (''url'', JStr ''https://x'')])
   \<and> gemini [(''url'', JStr ''https://x'')] = Some (JObj [(''httpUrl'', JStr ''https://x'')])"
  using url_transport_projection [of "[(''url'', JStr ''https://x'')]" "JStr ''https://x''"]
  by (simp add: truthy_field_def)

text \<open>
  Claim C4 as stated fails: the three projectors spread the whole transport into the
  fragment, so the fragment also carries the key \<^verbatim>\<open>httpUrl\<close>.
\<close>

theorem httpUrl_projection_counterexample:
  "claudeCode [(''httpUrl'', JStr ''https://x'')]
     = Some (JObj [(''type'', JStr ''http''), (''url'', JStr ''https://x''),
                   (''httpUrl'', JStr ''https://x'')])
   \<and> claudeCode [(''httpUrl'', JStr ''https://x'')]
     \<noteq> Some (JObj [(''type'', JStr ''http''), (''url'', JStr ''https://x'')])"
  by (simp add: claudeCode_def truthy_field_def spread_def)

text \<open>
  Claim C4, amended. For a transport with a populated \<^verbatim>\<open>httpUrl\<close> and neither
  \<^verbatim>\<open>command\<close> nor \<^verbatim>\<open>url\<close>, the claudeCode, claudeDesktop and vscode default
  projectors return one and the same fragment, whose fields are all the fields of the
  transport (\<^verbatim>\<open>httpUrl\<close> included), \<^verbatim>\<open>url\<close> set to the transport's httpUrl, and
  \<^verbatim>\<open>type: 'http'\<close> unless the transport has a \<^verbatim>\<open>type\<close> of its own; the gemini default
  projector returns exactly the fields of the transport.
\<close>

theorem httpUrl_transport_projection:
  assumes "map_of t ''httpUrl'' = Some h" and "truthy h"
    and "map_of t ''command'' = None" and "map_of t ''url'' = None"
    and "distinct (map fst t)"
  shows "\<exists>r g. claudeCode t = Some (JObj r) \<and> claudeDesktop t = Some (JObj r)
            \<and> vscode t = Some (JObj r) \<and> gemini t = Some (JObj g)
            \<and> map_of r = [''type'' \<mapsto> JStr ''http'', ''url'' \<mapsto> h] ++ map_of t
            \<and> map_of g = map_of t
            \<and> distinct (map fst r) \<and> distinct (map fst g)"
proof -
  let ?r = "spread [(''type'', JStr ''http''), (''url'', h)] t"
  let ?g = "spread [(''httpUrl'', h)] t"
  have "map_of ?g = [''httpUrl'' \<mapsto> h] ++ map_of t"
    using assms(5) by (simp add: map_of_spread)
  also have "\<dots> = map_of t"
    using assms(1) by (auto simp: map_add_def fun_eq_iff split: option.splits)
  finally have g: "map_of ?g = map_of t" .
  have r: "map_of ?r = [''type'' \<mapsto> JStr ''http'', ''url'' \<mapsto> h] ++ map_of t"
    using assms(5) by (auto simp: map_of_spread fun_eq_iff map_add_def split: option.splits)
  have d: "distinct (map fst ?r)" "distinct (map fst ?g)"
    by (simp_all add: distinct_spread)
  have "claudeCode t = Some (JObj ?r)" "claudeDesktop t = Some (JObj ?r)"
    "vscode t = Some (JObj ?r)" "gemini t = Some (JObj ?g)"
    using assms(1-4)
    by (simp_all add: claudeCode_def claudeDesktop_def vscode_def gemini_def truthy_field_def)
  with g r d show ?thesis by blast
qed

theorem httpUrl_transport_projection_witness:
  "map_of [(''httpUrl'', JStr ''https://x''), (''headers'', JObj [(''K'', JStr ''v'')])]
      ''httpUrl'' = Some (JStr ''https://x'')
   \<and> truthy (JStr ''https://x'')
   \<and> map_of [(''httpUrl'', JStr ''https://x''), (''headers'', JObj [(''K'', JStr ''v'')])]
      ''command'' = None
   \<and> map_of [(''httpUrl'', JStr ''https://x''), (''headers'', JObj [(''K'', JStr ''v'')])]
      ''url'' = None
   \<and> distinct (map fst
        [(''httpUrl'', JStr ''https://x''), (''headers'', JObj [(''K'', JStr ''v'')])])
   \<and> (\<exists>r g.
        claudeCode [(''httpUrl'', JStr ''https://x''), (''headers'', JObj [(''K'', JStr ''v'')])]
          = Some (JObj r)
      \<and> gemini [(''httpUrl'', JStr ''https://x''), (''headers'', JObj [(''K'', JStr ''v'')])]
          = Some (JObj g)
      \<and> map_of r ''httpUrl'' = Some (JStr ''https://x'')
      \<and> map_of r ''url'' = Some (JStr ''https://x'')
      \<and> map_of r ''type'' = Some (JStr ''http'')
      \<and> map_of g ''headers'' = Some (JObj [(''K'', JStr ''v'')]))"
  using httpUrl_transport_projection
    [of "[(''httpUrl'', JStr ''https://x''), (''headers'', JObj [(''K'', JStr ''v'')])]"
        "JStr ''https://x''"]
  by (auto simp: map_add_def)

section \<open>Token validation\<close>


lemma get_prop_own: "map_of kvs k = Some v \<Longrightarrow> get_prop kvs k = Own v"
  by (simp add: get_prop_def)

lemma get_prop_undefined:
  "map_of kvs k = None \<Longrightarrow> k \<notin> set object_prototype_keys \<Longrightarrow> get_prop kvs k = Undefined"
  by (simp add: get_prop_def)

lemma token_falsy_own:
  "t \<notin> set object_prototype_keys \<Longrightarrow>
   token_falsy toks t = (map_of toks t = None \<or> map_of toks t = Some [])"
  by (auto simp: token_falsy_def get_prop_def split: option.splits)

lemma validateServerTokens_known:
  assumes "map_of reg k = Some s" and "requiredTokens s = Some r"
    and "set r \<inter> set object_prototype_keys = {}"
  shows "missing (validateServerTokens reg k toks)
           = filter (\<lambda>t. map_of toks t = None \<or> map_of toks t = Some []) r"
    and "valid (validateServerTokens reg k toks)
           = (missing (validateServerTokens reg k toks) = [])"
proof -
  have "filter (token_falsy toks) r
          = filter (\<lambda>t. map_of toks t = None \<or> map_of toks t = Some []) r"
  proof (rule filter_cong[OF refl])
    fix x assume "x \<in> set r"
    with assms(3) have "x \<notin> set object_prototype_keys" by blast
    then show "token_falsy toks x = (map_of toks x = None \<or> map_of toks x = Some [])"
      by (rule token_falsy_own)
  qed
  then show "missing (validateServerTokens reg k toks)
           = filter (\<lambda>t. map_of toks t = None \<or> map_of toks t = Some []) r"
    using assms(1,2) by (simp add: validateServerTokens_def get_prop_own Let_def)
  show "valid (validateServerTokens reg k toks)
           = (missing (validateServerTokens reg k toks) = [])"
    using assms(1,2) by (simp add: validateServerTokens_def get_prop_own Let_def)
qed

lemma validateServerTokens_unknown:
  "map_of reg k = None \<Longrightarrow> k \<notin> set object_prototype_keys \<Longrightarrow>
   validateServerTokens reg k toks = \<lparr>valid = False, missing = []\<rparr>"
  by (simp add: validateServerTokens_def get_prop_undefined)

text \<open>
  Claim C7 at a required token named like a member of \<^verbatim>\<open>Object.prototype\<close>: a server
  registered with \<^verbatim>\<open>requiredTokens = ['A', 'toString']\<close> and the token set
  \<^verbatim>\<open>{A: 'x'}\<close>. The token \<^verbatim>\<open>toString\<close> is absent from the token set, yet
  \<^verbatim>\<open>tokens['toString']\<close> is the inherited function, so nothing is reported missing.
\<close>

theorem validateServerTokens_inherited_token:
  "addServer mcpServers ''demo''
     \<lparr>name = ''Demo'', description = ''demo'', type = ''npm'',
      requiredTokens = Some [''A'', ''toString''], config = Some (JObj []),
      transport = None, customGenerators = []\<rparr>
   = Inr (mcpServers @ [(''demo'',
     \<lparr>name = ''Demo'', description = ''demo'', type = ''npm'',
      requiredTokens = Some [''A'', ''toString''], config = Some (JObj []),
      transport = None, customGenerators = []\<rparr>)])
   \<and> validateServerTokens (mcpServers @ [(''demo'',
     \<lparr>name = ''Demo'', description = ''demo'', type = ''npm'',
      requiredTokens = Some [''A'', ''toString''], config = Some (JObj []),
      transport = None, customGenerators = []\<rparr>)]) ''demo'' [(''A'', ''x'')]
   = \<lparr>valid = True, missing = []\<rparr>"
proof -
  have fresh: "''demo'' \<notin> fst ` set mcpServers" by (simp add: mcpServers_def)
  have idx: "array_index ''demo'' = None" by (simp add: array_index_def is_digit_def)
  have last: "set_prop ''demo'' s mcpServers = mcpServers @ [(''demo'', s)]" for s :: server
    by (rule set_prop_last[OF fresh _ idx]) simp
  have und: "get_prop mcpServers ''demo'' = Undefined"
    by (simp add: get_prop_def mcpServers_def object_prototype_keys_def)
  have reg: "addServer mcpServers ''demo''
     \<lparr>name = ''Demo'', description = ''demo'', type = ''npm'',
      requiredTokens = Some [''A'', ''toString''], config = Some (JObj []),
      transport = None, customGenerators = []\<rparr>
   = Inr (mcpServers @ [(''demo'',
     \<lparr>name = ''Demo'', description = ''demo'', type = ''npm'',
      requiredTokens = Some [''A'', ''toString''], config = Some (JObj []),
      transport = None, customGenerators = []\<rparr>)])"
    by (simp add: addServer_def und last truthy_opt_def)
  have val: "validateServerTokens (mcpServers @ [(''demo'',
     \<lparr>name = ''Demo'', description = ''demo'', type = ''npm'',
      requiredTokens = Some [''A'', ''toString''], config = Some (JObj []),
      transport = None, customGenerators = []\<rparr>)]) ''demo'' [(''A'', ''x'')]
   = \<lparr>valid = True, missing = []\<rparr>"
    by (simp add: validateServerTokens_def get_prop_def mcpServers_def
        object_prototype_keys_def token_falsy_def)
  from reg val show ?thesis by (rule conjI)
qed

text \<open>
  Claim C10 at the server name \<^verbatim>\<open>constructor\<close>, which is not in the catalog:
  \<^verbatim>\<open>mcpServers['constructor']\<close> is the inherited function, so the lookup is truthy and
  the call reports \<^verbatim>\<open>valid: true\<close>.
\<close>

theorem validateServerTokens_inherited_name:
  "validateServerTokens mcpServers ''constructor'' [] = \<lparr>valid = True, missing = []\<rparr>"
  by (simp add: validateServerTokens_def get_prop_def mcpServers_def
      object_prototype_keys_def)

section \<open>Registration\<close>


lemma fold_generators_lookup:
  "distinct (map fst gens) \<Longrightarrow>
   map_of (fold (\<lambda>(client, generator) config.
                 case generator t of
                   Some clientConfig \<Rightarrow>
                     if truthy clientConfig then AList.update client clientConfig config
                     else config
                 | None \<Rightarrow> config) gens acc) c
   = (case map_of gens c of
        None \<Rightarrow> map_of acc c
      | Some g \<Rightarrow> (case g t of
                     Some x \<Rightarrow> if truthy x then Some x else map_of acc c
                   | None \<Rightarrow> map_of acc c))"
proof (induction gens arbitrary: acc)
  case Nil
  then show ?case by simp
next
  case (Cons a gens)
  obtain k g where a: "a = (k, g)" by (cases a)
  from Cons.prems a have k: "map_of gens k = None" and d: "distinct (map fst gens)"
    by (auto simp: map_of_eq_None_iff)
  show ?case
    using Cons.IH[OF d] a k
    by (auto simp: update_conv' split: option.splits)
qed

lemma distinct_defaultConfigGenerators: "distinct (map fst defaultConfigGenerators)"
  by (simp add: defaultConfigGenerators_def)

lemma buildConfig_lookup:
  "map_of (buildConfig t custom) c
   = (case map_of (spread defaultConfigGenerators custom) c of
        None \<Rightarrow> None
      | Some g \<Rightarrow> (case g t of
                     Some x \<Rightarrow> if truthy x then Some x else None
                   | None \<Rightarrow> None))"
  unfolding buildConfig_def Let_def
  by (subst fold_generators_lookup)
     (simp_all add: distinct_spread distinct_defaultConfigGenerators split: option.splits)

text \<open>
  Claim C8 as stated fails: a descriptor with a command transport and no precomputed
  config gets three projections, not four, since the vscode default projector returns
  null for a command transport.
\<close>

theorem addServer_counterexample:
  "addServer mcpServers ''myServer''
     \<lparr>name = ''My Server'', description = ''My custom MCP server'', type = ''npm'',
      requiredTokens = Some [''MY_TOKEN''], config = None,
      transport = Some (JObj [(''command'', JStr ''npx''),
                              (''args'', JArr [JStr ''my-mcp-server''])]),
      customGenerators = []\<rparr>
   = Inr (mcpServers @ [(''myServer'',
     \<lparr>name = ''My Server'', description = ''My custom MCP server'', type = ''npm'',
      requiredTokens = Some [''MY_TOKEN''],
      config = Some (JObj
        [(''claudeCode'', JObj [(''command'', JStr ''npx''),
                               (''args'', JArr [JStr ''my-mcp-server''])]),
         (''claudeDesktop'', JObj [(''command'', JStr ''npx''),
                               (''args'', JArr [JStr ''my-mcp-server''])]),
         (''gemini'', JObj [(''command'', JStr ''npx''),
                               (''args'', JArr [JStr ''my-mcp-server''])])]),
      transport = Some (JObj [(''command'', JStr ''npx''),
                              (''args'', JArr [JStr ''my-mcp-server''])]),
      customGenerators = []\<rparr>)])"
proof -
  have fresh: "''myServer'' \<notin> fst ` set mcpServers" by (simp add: mcpServers_def)
  have idx: "array_index ''myServer'' = None" by (simp add: array_index_def is_digit_def)
  have last: "set_prop ''myServer'' s mcpServers = mcpServers @ [(''myServer'', s)]"
    for s :: server
    by (rule set_prop_last[OF fresh _ idx]) simp
  have und: "get_prop mcpServers ''myServer'' = Undefined"
    by (simp add: get_prop_def mcpServers_def object_prototype_keys_def)
  show ?thesis
    by (simp add: addServer_def und last
        truthy_opt_def own_fields_def buildConfig_def spread_def defaultConfigGenerators_def
        claudeCode_def claudeDesktop_def vscode_def gemini_def truthy_field_def)
qed

text \<open>
  Claim C8, amended. Registering under a key that is present fails with AlreadyExists and
  returns no new registry; registering under a key that is neither present nor the name
  of a member of \<^verbatim>\<open>Object.prototype\<close> succeeds: the registry then holds the stored
  descriptor under that key and every other key with the descriptor it had, and the new
  key is the last one unless it is an array index such as \<^verbatim>\<open>'1'\<close>. The descriptor is
  stored as given when it has a truthy config or no truthy transport; when it has a
  truthy transport and no truthy config, its config holds, for each client of the default
  generators overridden by the custom ones, the generator's result on the transport when
  that result is truthy, and no entry otherwise.
\<close>

theorem addServer_registers:
  "(map_of reg n \<noteq> None \<longrightarrow> addServer reg n s = Inl (AlreadyExists n))
   \<and> (map_of reg n = None \<and> n \<notin> set object_prototype_keys \<longrightarrow>
        (\<exists>reg' s'. addServer reg n s = Inr reg'
            \<and> map_of reg' n = Some s'
            \<and> (\<forall>k. k \<noteq> n \<longrightarrow> map_of reg' k = map_of reg k)
            \<and> (array_index n = None \<longrightarrow> reg' = reg @ [(n, s')])
            \<and> (truthy_opt (config s) \<or> \<not> truthy_opt (transport s) \<longrightarrow> s' = s)
            \<and> (\<forall>tr. \<not> truthy_opt (config s) \<and> transport s = Some tr \<and> truthy tr \<longrightarrow>
                 (\<exists>cfg. s' = s\<lparr>config := Some (JObj cfg)\<rparr>
                    \<and> (\<forall>client. map_of cfg client =
                         (case map_of (spread defaultConfigGenerators (customGenerators s))
                                 client of
                            None \<Rightarrow> None
                          | Some g \<Rightarrow>
                             (case g (own_fields tr) of
                                Some x \<Rightarrow> if truthy x then Some x else None
                              | None \<Rightarrow> None)))))))"
proof (intro conjI impI)
  assume "map_of reg n \<noteq> None"
  then show "addServer reg n s = Inl (AlreadyExists n)"
    by (auto simp: addServer_def get_prop_def)
next
  assume a: "map_of reg n = None \<and> n \<notin> set object_prototype_keys"
  then have fresh: "n \<notin> fst ` set reg" by (simp add: map_of_eq_None_iff)
  from a have np: "n \<noteq> ''__proto__''" by (auto simp: object_prototype_keys_def)
  let ?s' = "if \<not> truthy_opt (config s) \<and> truthy_opt (transport s)
             then s\<lparr>config := Some (JObj (buildConfig
                      (case transport s of Some tr \<Rightarrow> own_fields tr | None \<Rightarrow> [])
                      (customGenerators s)))\<rparr>
             else s"
  have r1: "addServer reg n s = Inr (set_prop n ?s' reg)"
    using a by (simp add: addServer_def get_prop_undefined)
  have r2: "map_of (set_prop n ?s' reg) n = Some ?s'"
    using np by (simp add: map_of_set_prop)
  have r3: "\<forall>k. k \<noteq> n \<longrightarrow> map_of (set_prop n ?s' reg) k = map_of reg k"
    using np by (simp add: map_of_set_prop)
  have r4: "array_index n = None \<longrightarrow> set_prop n ?s' reg = reg @ [(n, ?s')]"
    using set_prop_last[OF fresh np] by blast
  have r5: "truthy_opt (config s) \<or> \<not> truthy_opt (transport s) \<longrightarrow> ?s' = s"
    by auto
  have r6: "\<forall>tr. \<not> truthy_opt (config s) \<and> transport s = Some tr \<and> truthy tr \<longrightarrow>
                 (\<exists>cfg. ?s' = s\<lparr>config := Some (JObj cfg)\<rparr>
                    \<and> (\<forall>client. map_of cfg client =
                         (case map_of (spread defaultConfigGenerators (customGenerators s))
                                 client of
                            None \<Rightarrow> None
                          | Some g \<Rightarrow>
                             (case g (own_fields tr) of
                                Some x \<Rightarrow> if truthy x then Some x else None
                              | None \<Rightarrow> None))))"
    by (auto simp: truthy_opt_def buildConfig_lookup)
  show "\<exists>reg' s'. addServer reg n s = Inr reg'
            \<and> map_of reg' n = Some s'
            \<and> (\<forall>k. k \<noteq> n \<longrightarrow> map_of reg' k = map_of reg k)
            \<and> (array_index n = None \<longrightarrow> reg' = reg @ [(n, s')])
            \<and> (truthy_opt (config s) \<or> \<not> truthy_opt (transport s) \<longrightarrow> s' = s)
            \<and> (\<forall>tr. \<not> truthy_opt (config s) \<and> transport s = Some tr \<and> truthy tr \<longrightarrow>
                 (\<exists>cfg. s' = s\<lparr>config := Some (JObj cfg)\<rparr>
                    \<and> (\<forall>client. map_of cfg client =
                         (case map_of (spread defaultConfigGenerators (customGenerators s))
                                 client of
                            None \<Rightarrow> None
                          | Some g \<Rightarrow>
                             (case g (own_fields tr) of
                                Some x \<Rightarrow> if truthy x then Some x else None
                              | None \<Rightarrow> None)))))"
    apply (rule exI[of _ "set_prop n ?s' reg"])
    apply (rule exI[of _ "?s'"])
    apply (intro conjI)
         apply (rule r1)
        apply (rule r2)
       apply (rule r3)
      apply (rule r4)
     apply (rule r5)
    apply (rule r6)
    done
qed

text \<open>
  The amended claim at the catalog: \<^verbatim>\<open>github\<close> is refused; \<^verbatim>\<open>myServer\<close> with a url
  transport is appended with its generated config; the array index \<^verbatim>\<open>1\<close> is registered
  too, and found under its key.
\<close>

theorem addServer_registers_witness:
  "map_of mcpServers ''github'' \<noteq> None
   \<and> addServer mcpServers ''github''
        \<lparr>name = ''My Server'', description = ''My custom MCP server'', type = ''npm'',
         requiredTokens = Some [''MY_TOKEN''], config = None,
         transport = Some (JObj [(''url'', JStr ''https://x'')]),
         customGenerators = []\<rparr>
       = Inl (AlreadyExists ''github'')
   \<and> map_of mcpServers ''myServer'' = None
   \<and> ''myServer'' \<notin> set object_prototype_keys
   \<and> array_index ''myServer'' = None
   \<and> \<not> truthy_opt None
   \<and> truthy (JObj [(''url'', JStr ''https://x'')])
   \<and> (\<exists>cfg. addServer mcpServers ''myServer''
        \<lparr>name = ''My Server'', description = ''My custom MCP server'', type = ''npm'',
         requiredTokens = Some [''MY_TOKEN''], config = None,
         transport = Some (JObj [(''url'', JStr ''https://x'')]),
         customGenerators = []\<rparr>
       = Inr (mcpServers @ [(''myServer'',
        \<lparr>name = ''My Server'', description = ''My custom MCP server'', type = ''npm'',
         requiredTokens = Some [''MY_TOKEN''], config = Some (JObj cfg),
         transport = Some (JObj [(''url'', JStr ''https://x'')]),
         customGenerators = []\<rparr>)])
       \<and> map_of cfg ''gemini'' = Some (JObj [(''httpUrl'', JStr ''https://x'')]))
   \<and> map_of mcpServers ''1'' = None
   \<and> ''1'' \<notin> set object_prototype_keys
   \<and> (\<exists>reg'. addServer mcpServers ''1''
        \<lparr>name = ''One'', description = ''numbered'', type = ''npm'',
         requiredTokens = None, config = Some (JObj []), transport = None,
         customGenerators = []\<rparr> = Inr reg'
       \<and> map_of reg' ''1''
           = Some \<lparr>name = ''One'', description = ''numbered'', type = ''npm'',
               requiredTokens = None, config = Some (JObj []), transport = None,
               customGenerators = []\<rparr>
       \<and> map_of reg' ''github'' = map_of mcpServers ''github'')"
proof -
  have h1: "map_of mcpServers ''github'' \<noteq> None" by (simp add: mcpServers_def)
  have h2: "map_of mcpServers ''myServer'' = None" by (simp add: mcpServers_def)
  have h3: "''myServer'' \<notin> set object_prototype_keys"
    by (simp add: object_prototype_keys_def)
  have h4: "array_index ''myServer'' = None" by (simp add: array_index_def is_digit_def)
  have h5: "map_of mcpServers ''1'' = None" by (simp add: mcpServers_def)
  have h6: "''1'' \<notin> set object_prototype_keys" by (simp add: object_prototype_keys_def)
  have t1: "\<not> truthy_opt None" by (simp add: truthy_opt_def)
  have t2: "truthy (JObj [(''url'', JStr ''https://x'')])" by simp
  define s where "s = \<lparr>name = ''My Server'', description = ''My custom MCP server'',
         type = ''npm'', requiredTokens = Some [''MY_TOKEN''], config = None,
         transport = Some (JObj [(''url'', JStr ''https://x'')]),
         customGenerators = []\<rparr>"
  define one where "one = \<lparr>name = ''One'', description = ''numbered'', type = ''npm'',
         requiredTokens = None, config = Some (JObj []), transport = None,
         customGenerators = []\<rparr>"
  have cs: "\<not> truthy_opt (config s)" "transport s = Some (JObj [(''url'', JStr ''https://x'')])"
    "customGenerators s = []"
    by (simp_all add: s_def truthy_opt_def)
  have a: "addServer mcpServers ''github'' s = Inl (AlreadyExists ''github'')"
    using addServer_registers [of mcpServers "''github''" s, THEN conjunct1, THEN mp, OF h1] .
  from addServer_registers [of mcpServers "''myServer''" s, THEN conjunct2, THEN mp,
      OF conjI[OF h2 h3]]
  obtain reg' s' where
    r1: "addServer mcpServers ''myServer'' s = Inr reg'"
    and r4: "array_index ''myServer'' = None \<longrightarrow> reg' = mcpServers @ [(''myServer'', s')]"
    and r6: "\<forall>tr. \<not> truthy_opt (config s) \<and> transport s = Some tr \<and> truthy tr \<longrightarrow>
                 (\<exists>cfg. s' = s\<lparr>config := Some (JObj cfg)\<rparr>
                    \<and> (\<forall>client. map_of cfg client =
                         (case map_of (spread defaultConfigGenerators (customGenerators s))
                                 client of
                            None \<Rightarrow> None
                          | Some g \<Rightarrow>
                             (case g (own_fields tr) of
                                Some x \<Rightarrow> if truthy x then Some x else None
                              | None \<Rightarrow> None))))"
    by (elim exE conjE) (rule that; assumption)
  from r4 h4 have r4': "reg' = mcpServers @ [(''myServer'', s')]" by (rule mp)
  from r6[rule_format, OF conjI[OF cs(1) conjI[OF cs(2) t2]]]
  obtain cfg where
    c1: "s' = s\<lparr>config := Some (JObj cfg)\<rparr>"
    and c2: "\<forall>client. map_of cfg client =
              (case map_of (spread defaultConfigGenerators (customGenerators s)) client of
                 None \<Rightarrow> None
               | Some g \<Rightarrow>
                  (case g (own_fields (JObj [(''url'', JStr ''https://x'')])) of
                     Some x \<Rightarrow> if truthy x then Some x else None
                   | None \<Rightarrow> None))"
    by (elim exE conjE) (rule that; assumption)
  have g: "map_of cfg ''gemini'' = Some (JObj [(''httpUrl'', JStr ''https://x'')])"
    using c2[rule_format, of "''gemini''"]
    by (simp add: cs(3) spread_def defaultConfigGenerators_def gemini_def
        truthy_field_def own_fields_def)
  have b: "addServer mcpServers ''myServer'' s
          = Inr (mcpServers @ [(''myServer'', s\<lparr>config := Some (JObj cfg)\<rparr>)])"
    using r1 r4' c1 by simp
  from addServer_registers [of mcpServers "''1''" one, THEN conjunct2, THEN mp,
      OF conjI[OF h5 h6]]
  obtain reg1 s1 where
    d: "addServer mcpServers ''1'' one = Inr reg1"
    and e: "map_of reg1 ''1'' = Some s1"
    and f: "\<forall>k. k \<noteq> ''1'' \<longrightarrow> map_of reg1 k = map_of mcpServers k"
    and k: "truthy_opt (config one) \<or> \<not> truthy_opt (transport one) \<longrightarrow> s1 = one"
    by (elim exE conjE) (rule that; assumption)
  have "truthy_opt (config one)" by (simp add: one_def truthy_opt_def)
  with k have s1: "s1 = one" by blast
  from f have f': "map_of reg1 ''github'' = map_of mcpServers ''github''" by simp
  have part2: "\<exists>cfg. addServer mcpServers ''myServer'' s
       = Inr (mcpServers @ [(''myServer'', s\<lparr>config := Some (JObj cfg)\<rparr>)])
       \<and> map_of cfg ''gemini'' = Some (JObj [(''httpUrl'', JStr ''https://x'')])"
    using b g by blast
  have part3: "\<exists>reg'. addServer mcpServers ''1'' one = Inr reg'
       \<and> map_of reg' ''1'' = Some one
       \<and> map_of reg' ''github'' = map_of mcpServers ''github''"
    using d e s1 f' by blast
  from h1 a h2 h3 h4 t1 t2 part2 h5 h6 part3
  show ?thesis unfolding s_def one_def by simp
qed

section \<open>Parsing what was serialised\<close>

text \<open>
  \<^verbatim>\<open>JSON.parse(JSON.stringify(v))\<close> is \<open>v\<close>: first for string literals, then for numbers,
  then for all well-formed values.
\<close>

lemma skip_ws_nonws: "\<not> is_ws c \<Longrightarrow> skip_ws (c # cs) = c # cs"
  by (simp add: skip_ws_def)

lemma hex_value_digit: "k < 16 \<Longrightarrow> hex_value (hex_digit k) = Some k"
proof -
  assume "k < 16"
  then have "k = 0 \<or> k = 1 \<or> k = 2 \<or> k = 3 \<or> k = 4 \<or> k = 5 \<or> k = 6 \<or> k = 7
      \<or> k = 8 \<or> k = 9 \<or> k = 10 \<or> k = 11 \<or> k = 12 \<or> k = 13 \<or> k = 14 \<or> k = 15"
    by arith
  then show ?thesis
    by (elim disjE) (simp_all add: hex_value_def hex_digit_def)
qed

lemma hex4_escape:
  assumes "n < 32"
  shows "hex4 (CHR ''0'') (CHR ''0'') (hex_digit (n div 16)) (hex_digit n) = Some n"
proof -
  have a: "hex_value (hex_digit (n div 16)) = Some (n div 16)"
    using assms by (intro hex_value_digit) simp
  have "hex_digit n = hex_digit (n mod 16)" by (simp add: hex_digit_def)
  then have b: "hex_value (hex_digit n) = Some (n mod 16)"
    using hex_value_digit[of "n mod 16"] by simp
  have z: "hex_value (CHR ''0'') = Some 0" by (simp add: hex_value_def)
  show ?thesis by (simp add: hex4_def a b z)
qed

lemma parse_chars_escape_char:
  assumes "parse_chars rest = Some (s, rest')"
  shows "parse_chars (escape_char c @ rest) = Some (c # s, rest')"
proof -
  consider (q) "c = CHR 0x22" | (b) "c = CHR 0x5C"
    | (sp) "c \<in> {CHR 0x08, CHR 0x0C, CHR 0x0A, CHR 0x0D, CHR 0x09}"
    | (ctl) "c \<noteq> CHR 0x22" "c \<noteq> CHR 0x5C"
        "c \<notin> {CHR 0x08, CHR 0x0C, CHR 0x0A, CHR 0x0D, CHR 0x09}" "(of_char c :: nat) < 0x20"
    | (plain) "c \<noteq> CHR 0x22" "c \<noteq> CHR 0x5C" "\<not> (of_char c :: nat) < 0x20"
    by blast
  then show ?thesis
  proof cases
    case q
    then show ?thesis using assms by (simp add: escape_char_def unescape_def)
  next
    case b
    then show ?thesis using assms by (simp add: escape_char_def unescape_def)
  next
    case sp
    then show ?thesis using assms by (auto simp: escape_char_def unescape_def)
  next
    case ctl
    have "code_unit (of_char c) = [c]"
      using ctl(4) by (simp add: code_unit_def)
    then show ?thesis
      using ctl assms hex4_escape[of "of_char c"]
      by (simp add: escape_char_def)
  next
    case plain
    then have "escape_char c = [c]"
      by (auto simp: escape_char_def)
    then show ?thesis using plain assms by simp
  qed
qed

lemma parse_chars_escaped:
  "parse_chars (concat (map escape_char s) @ CHR 0x22 # rest) = Some (s, rest)"
  by (induction s) (simp_all add: parse_chars_escape_char)

lemma parse_chars_quote:
  "parse_chars (tl (quote s) @ rest) = Some (s, rest)"
  by (simp add: quote_def parse_chars_escaped)

lemma quote_Cons: "quote s @ rest = CHR 0x22 # concat (map escape_char s) @ CHR 0x22 # rest"
  by (simp add: quote_def)

lemma valid_number_nonempty: "valid_number lit \<Longrightarrow> lit \<noteq> []"
  by (auto simp: valid_number_def)

lemma num_char_props:
  "is_num_char c \<Longrightarrow> \<not> is_ws c \<and> c \<noteq> CHR 0x22 \<and> c \<noteq> CHR ''['' \<and> c \<noteq> CHR ''{''
     \<and> c \<noteq> CHR '']'' \<and> c \<noteq> CHR ''}'' \<and> c \<noteq> CHR ''t'' \<and> c \<noteq> CHR ''f'' \<and> c \<noteq> CHR ''n''"
  by (auto simp: is_num_char_def is_ws_def)

lemma parse_number_lit:
  assumes "valid_number lit" and "list_all is_num_char lit"
    and "rest = [] \<or> \<not> is_num_char (hd rest)"
  shows "parse_number (lit @ rest) = Some (JNum lit, rest)"
proof -
  have all: "\<forall>x\<in>set lit. is_num_char x" using assms(2) by (simp add: list_all_iff)
  have t: "takeWhile is_num_char rest = []" and d: "dropWhile is_num_char rest = rest"
    using assms(3) by (cases rest; auto)+
  have "takeWhile is_num_char (lit @ rest) = lit"
    using all t by (simp add: takeWhile_append2)
  moreover have "dropWhile is_num_char (lit @ rest) = rest"
    using all d by (simp add: dropWhile_append2)
  ultimately show ?thesis using assms(1) by (simp add: parse_number_def)
qed

lemma parse_value_number:
  assumes "valid_number lit" and "list_all is_num_char lit"
    and "rest = [] \<or> \<not> is_num_char (hd rest)"
  shows "parse_value (Suc n) (lit @ rest) = Some (JNum lit, rest)"
proof -
  from valid_number_nonempty[OF assms(1)] obtain c cs where lit: "lit = c # cs"
    by (cases lit) auto
  with assms(2) have c: "is_num_char c" by simp
  note p = num_char_props[OF c]
  have "parse_value (Suc n) (lit @ rest) = parse_number (lit @ rest)"
    using p lit by (simp add: skip_ws_nonws)
  then show ?thesis using parse_number_lit[OF assms] by simp
qed

lemma stringify_start:
  "wf_json v \<Longrightarrow> \<exists>c cs. JSON_stringify v = c # cs \<and> \<not> is_ws c \<and> c \<noteq> CHR '']''"
proof (cases v)
  case (JNum lit)
  assume "wf_json v"
  with JNum have v: "valid_number lit" and a: "list_all is_num_char lit" by auto
  from valid_number_nonempty[OF v] obtain c cs where lit: "lit = c # cs" by (cases lit) auto
  with a have "is_num_char c" by simp
  from num_char_props[OF this] lit JNum show ?thesis by simp
qed (auto simp: is_ws_def quote_def)

lemma stringify_elements_start:
  assumes "wf_elements xs" and "xs \<noteq> []"
  shows "\<exists>c cs. stringify_elements xs = c # cs \<and> \<not> is_ws c \<and> c \<noteq> CHR '']''"
proof -
  from assms(2) obtain x r where xs: "xs = x # r" by (cases xs) auto
  with assms(1) have "wf_json x" by (cases r) auto
  from stringify_start[OF this] obtain c cs where "JSON_stringify x = c # cs"
    "\<not> is_ws c" "c \<noteq> CHR '']''" by blast
  then show ?thesis using xs by (cases r) auto
qed

lemma stringify_members_start:
  assumes "kvs \<noteq> []"
  shows "\<exists>cs. stringify_members kvs = CHR 0x22 # cs"
proof -
  from assms obtain k v r where "kvs = (k, v) # r" by (cases kvs) auto
  then show ?thesis by (cases r) (auto simp: quote_def)
qed

lemma stringify_length: "wf_json v \<Longrightarrow> 0 < length (JSON_stringify v)"
  using stringify_start by fastforce

lemma ws_facts:
  "\<not> is_ws (CHR 0x22)" "\<not> is_ws (CHR ''['')" "\<not> is_ws (CHR ''{'')" "\<not> is_ws (CHR '']'')"
  "\<not> is_ws (CHR ''}'')" "\<not> is_ws (CHR '','')" "\<not> is_ws (CHR '':'')"
  "\<not> is_ws (CHR ''t'')" "\<not> is_ws (CHR ''f'')" "\<not> is_ws (CHR ''n'')"
  by (simp_all add: is_ws_def)

lemma not_num_facts:
  "\<not> is_num_char (CHR '']'')" "\<not> is_num_char (CHR ''}'')" "\<not> is_num_char (CHR '','')"
  by (simp_all add: is_num_char_def)

lemma parse_roundtrip:
  "wf_json v \<Longrightarrow> length (JSON_stringify v) \<le> n \<Longrightarrow>
     rest = [] \<or> \<not> is_num_char (hd rest) \<Longrightarrow>
     parse_value n (JSON_stringify v @ rest) = Some (v, rest)"
  "wf_elements xs \<Longrightarrow> xs \<noteq> [] \<Longrightarrow> length (stringify_elements xs) < n \<Longrightarrow>
     parse_elements n acc (stringify_elements xs @ CHR '']'' # rest) = Some (JArr (acc @ xs), rest)"
  "wf_members kvs \<Longrightarrow> kvs \<noteq> [] \<Longrightarrow> length (stringify_members kvs) < n \<Longrightarrow>
     parse_members n accm (stringify_members kvs @ CHR ''}'' # rest)
       = Some (JObj (spread accm kvs), rest)"
proof (induction v and xs and kvs arbitrary: n rest and n acc rest and n accm rest
    rule: JSON_stringify_stringify_elements_stringify_members.induct)
  case 1
  then obtain m where "n = Suc m" by (cases n) auto
  then show ?case by (simp add: skip_ws_nonws ws_facts)
next
  case (2 b)
  then obtain m where "n = Suc m" by (cases n; cases b) auto
  then show ?case by (cases b) (simp_all add: skip_ws_nonws ws_facts)
next
  case (3 lit)
  then obtain m where n: "n = Suc m"
    using valid_number_nonempty[of lit] by (cases n) auto
  from 3(1) have v: "valid_number lit" "list_all is_num_char lit" by simp_all
  show ?case unfolding n JSON_stringify.simps
    by (rule parse_value_number[OF v 3(3)])
next
  case (4 s)
  then obtain m where "n = Suc m" by (cases n) (auto simp: quote_def)
  then show ?case
    by (simp add: quote_Cons skip_ws_nonws ws_facts parse_chars_escaped)
next
  case (5 xs)
  from "5.prems"(2) obtain m where n: "n = Suc m" by (cases n) auto
  show ?case
  proof (cases "xs = []")
    case True
    with n show ?thesis by (simp add: skip_ws_nonws ws_facts)
  next
    case False
    from "5.prems"(1) have wfe: "wf_elements xs" by simp
    from stringify_elements_start[OF wfe False] obtain c cs where
      st: "stringify_elements xs = c # cs" "\<not> is_ws c" "c \<noteq> CHR '']''" by blast
    from "5.prems"(2) n have len: "length (stringify_elements xs) < m" by simp
    have "parse_elements m [] (stringify_elements xs @ CHR '']'' # rest)
            = Some (JArr ([] @ xs), rest)"
      by (rule "5.IH"[OF wfe False len])
    then show ?thesis
      using n st by (simp add: skip_ws_nonws ws_facts)
  qed
next
  case (6 kvs)
  from "6.prems"(2) obtain m where n: "n = Suc m" by (cases n) auto
  show ?case
  proof (cases "kvs = []")
    case True
    with n show ?thesis by (simp add: skip_ws_nonws ws_facts)
  next
    case False
    from "6.prems"(1) have wfm: "wf_members kvs" and d: "distinct (map fst kvs)" by simp_all
    from stringify_members_start[OF False] obtain cs where
      st: "stringify_members kvs = CHR 0x22 # cs" by blast
    from "6.prems"(2) n have len: "length (stringify_members kvs) < m" by simp
    have "parse_members m [] (stringify_members kvs @ CHR ''}'' # rest)
            = Some (JObj (spread [] kvs), rest)"
      by (rule "6.IH"[OF wfm False len])
    moreover have "spread [] kvs = kvs"
      using spread_append_distinct[of "[]" kvs] d by simp
    ultimately show ?thesis
      using n st by (simp add: skip_ws_nonws ws_facts)
  qed
next
  case 7
  then show ?case by simp
next
  case (8 x)
  from "8.prems"(3) obtain m where n: "n = Suc m" by (cases n) auto
  from "8.prems"(1) have wfx: "wf_json x" by simp
  from "8.prems"(3) n have len: "length (JSON_stringify x) \<le> m" by simp
  have "parse_value m (JSON_stringify x @ CHR '']'' # rest) = Some (x, CHR '']'' # rest)"
    by (rule "8.IH"[OF wfx len]) (simp add: not_num_facts)
  then show ?case using n by (simp add: skip_ws_nonws ws_facts)
next
  case (9 x y r)
  from "9.prems"(3) obtain m where n: "n = Suc m" by (cases n) auto
  from "9.prems"(1) have wfx: "wf_json x" and wfr: "wf_elements (y # r)" by simp_all
  from "9.prems"(3) n have len: "length (JSON_stringify x) \<le> m" by simp
  from "9.prems"(3) n stringify_length[OF wfx]
  have len2: "length (stringify_elements (y # r)) < m" by simp
  have a: "parse_value m (JSON_stringify x @ CHR '','' # stringify_elements (y # r) @ CHR '']'' # rest)
          = Some (x, CHR '','' # stringify_elements (y # r) @ CHR '']'' # rest)"
    by (rule "9.IH"(1)[OF wfx len]) (simp add: not_num_facts)
  have b: "parse_elements m (acc @ [x]) (stringify_elements (y # r) @ CHR '']'' # rest)
          = Some (JArr ((acc @ [x]) @ y # r), rest)"
    by (rule "9.IH"(2)[OF wfr _ len2]) simp
  show ?case using n a b by (simp add: skip_ws_nonws ws_facts)
next
  case 10
  then show ?case by simp
next
  case (11 k v)
  from "11.prems"(3) obtain m where n: "n = Suc m" by (cases n) auto
  from "11.prems"(1) have wfv: "wf_json v" by simp
  from "11.prems"(3) n have len: "length (JSON_stringify v) \<le> m" by (simp add: quote_def)
  have a: "parse_value m (JSON_stringify v @ CHR ''}'' # rest) = Some (v, CHR ''}'' # rest)"
    by (rule "11.IH"[OF wfv len]) (simp add: not_num_facts)
  have b: "parse_chars (concat (map escape_char k) @ CHR 0x22 # CHR '':'' # JSON_stringify v @ CHR ''}'' # rest)
           = Some (k, CHR '':'' # JSON_stringify v @ CHR ''}'' # rest)"
    by (rule parse_chars_escaped)
  show ?case using n a b
    by (simp add: quote_Cons skip_ws_nonws ws_facts spread_Cons spread_Nil)
next
  case (12 k v m' r)
  from "12.prems"(3) obtain m where n: "n = Suc m" by (cases n) auto
  from "12.prems"(1) have wfv: "wf_json v" and wfr: "wf_members (m' # r)" by simp_all
  from "12.prems"(3) n have len: "length (JSON_stringify v) \<le> m" by (simp add: quote_def)
  from "12.prems"(3) n have len2: "length (stringify_members (m' # r)) < m" by (simp add: quote_def)
  have a: "parse_value m (JSON_stringify v @ CHR '','' # stringify_members (m' # r) @ CHR ''}'' # rest)
          = Some (v, CHR '','' # stringify_members (m' # r) @ CHR ''}'' # rest)"
    by (rule "12.IH"(1)[OF wfv len]) (simp add: not_num_facts)
  have b: "parse_chars (concat (map escape_char k) @ CHR 0x22 # CHR '':'' # JSON_stringify v
              @ CHR '','' # stringify_members (m' # r) @ CHR ''}'' # rest)
           = Some (k, CHR '':'' # JSON_stringify v
              @ CHR '','' # stringify_members (m' # r) @ CHR ''}'' # rest)"
    by (rule parse_chars_escaped)
  have c: "parse_members m (AList.update k v accm) (stringify_members (m' # r) @ CHR ''}'' # rest)
          = Some (JObj (spread (AList.update k v accm) (m' # r)), rest)"
    by (rule "12.IH"(2)[OF wfr _ len2]) simp
  show ?case using n a b c
    by (simp add: quote_Cons skip_ws_nonws ws_facts spread_Cons)
qed

lemma JSON_parse_stringify: "wf_json v \<Longrightarrow> JSON_parse (JSON_stringify v) = Some v"
  using parse_roundtrip(1)[of v "2 * length (JSON_stringify v) + 2" "[]"]
  by (simp add: JSON_parse_def skip_ws_def)

section \<open>Token replacement on serialised values\<close>

text \<open>
  For a token name and a plain value without dollar sign, replacing the placeholder in
  the serialised text of a value is replacing it in every string of the value.
\<close>

declare replace_token.simps [simp del]

lemma expand_dollar_free: "dollar_free val \<Longrightarrow> expand pre m post val = val"
  by (induction pre m post val rule: expand.induct) (auto simp: dollar_free_def)

lemma placeholder_Cons: "placeholder k = CHR ''$'' # CHR ''{'' # k @ ''}''"
  by (simp add: placeholder_def)

lemma replace_token_no_dollar:
  "CHR ''$'' \<notin> set a \<Longrightarrow>
   replace_token k val pre (a @ s) = a @ replace_token k val (pre @ a) s"
  by (induction a arbitrary: pre) (auto simp: placeholder_Cons replace_token.simps)

lemma replace_token_before:
  "dollar_free val \<Longrightarrow> replace_token k val pre s = replace_token k val pre' s"
proof (induction k val pre s arbitrary: pre' rule: replace_token.induct)
  case (1 key val before)
  then show ?case by (simp add: replace_token.simps)
next
  case (2 key val before c cs)
  show ?case
  proof (cases "prefix (placeholder key) (c # cs)")
    case True
    with 2(1)[OF True 2(3), of "pre' @ placeholder key"] 2(3) show ?thesis
      by (simp add: expand_dollar_free replace_token.simps)
  next
    case False
    with 2(2)[OF False 2(3), of "pre' @ [c]"] show ?thesis by (simp add: replace_token.simps)
  qed
qed

lemma replace_token_match:
  "replace_token k val pre (placeholder k @ s)
     = expand pre (placeholder k) s val @ replace_token k val (pre @ placeholder k) s"
proof -
  have "placeholder k @ s = CHR ''$'' # (CHR ''{'' # k @ ''}'' @ s)"
    by (simp add: placeholder_Cons)
  moreover have "prefix (placeholder k) (placeholder k @ s)" by simp
  moreover have "drop (length (placeholder k)) (placeholder k @ s) = s" by simp
  ultimately show ?thesis
    using replace_token.simps(2)[of k val pre "CHR ''$''" "CHR ''{'' # k @ ''}'' @ s"]
    by simp
qed

lemma prefix_sep:
  "c \<notin> set k \<Longrightarrow> c \<notin> set k' \<Longrightarrow> prefix (k @ [c]) (k' @ c # s) \<Longrightarrow> k = k'"
proof (induction k arbitrary: k')
  case Nil
  then show ?case by (cases k') auto
next
  case (Cons a k)
  then show ?case by (cases k') auto
qed

lemma token_name_chars:
  assumes "token_name k"
  shows "CHR ''$'' \<notin> set k" "CHR ''}'' \<notin> set k" "CHR ''{'' \<notin> set k" "list_all plain_char k"
proof -
  have "\<forall>c\<in>set k. token_char c" using assms by (simp add: token_name_def list_all_iff)
  moreover have "\<not> token_char (CHR ''$'')" "\<not> token_char (CHR ''}'')" "\<not> token_char (CHR ''{'')"
    by (simp_all add: token_char_def)
  moreover have "\<And>c. token_char c \<Longrightarrow> plain_char c"
    by (auto simp: token_char_def plain_char_def)
  ultimately show "CHR ''$'' \<notin> set k" "CHR ''}'' \<notin> set k" "CHR ''{'' \<notin> set k"
    "list_all plain_char k"
    by (auto simp: list_all_iff)
qed

lemma placeholder_prefix_same:
  assumes "token_name k" "token_name k'" "prefix (placeholder k) (placeholder k' @ s)"
  shows "k = k'"
proof -
  from assms(3) have "prefix (k @ [CHR ''}'']) (k' @ CHR ''}'' # s)"
    by (simp add: placeholder_Cons)
  with token_name_chars(2)[OF assms(1)] token_name_chars(2)[OF assms(2)]
  show ?thesis by (rule prefix_sep)
qed

lemma replace_token_skip:
  assumes "token_name k" "token_name k'" "k \<noteq> k'"
  shows "replace_token k val pre (placeholder k' @ s)
           = placeholder k' @ replace_token k val (pre @ placeholder k') s"
proof -
  have np: "\<not> prefix (placeholder k) (placeholder k' @ s)"
    using placeholder_prefix_same[OF assms(1,2)] assms(3) by blast
  have tail: "CHR ''$'' \<notin> set (CHR ''{'' # k' @ ''}'')"
    using token_name_chars(1)[OF assms(2)] by simp
  have "replace_token k val pre (placeholder k' @ s)
          = CHR ''$'' # replace_token k val (pre @ [CHR ''$'']) ((CHR ''{'' # k' @ ''}'') @ s)"
    using np by (simp add: placeholder_Cons replace_token.simps)
  also have "\<dots> = CHR ''$'' # (CHR ''{'' # k' @ ''}'')
                     @ replace_token k val ((pre @ [CHR ''$'']) @ (CHR ''{'' # k' @ ''}'')) s"
    by (simp only: replace_token_no_dollar[OF tail])
  finally show ?thesis by (simp add: placeholder_Cons)
qed

lemma escape_char_plain: "plain_char c \<Longrightarrow> escape_char c = [c]"
  by (auto simp: plain_char_def escape_char_def)

lemma escape_plain: "list_all plain_char s \<Longrightarrow> concat (map escape_char s) = s"
  by (induction s) (simp_all add: escape_char_plain)

lemma escape_char_nonplain: "\<not> plain_char c \<Longrightarrow> \<exists>t. escape_char c = CHR 0x5C # t"
  by (auto simp: plain_char_def escape_char_def)

lemma hex_digit_mem: "hex_digit n \<in> set ''0123456789abcdef''"
  unfolding hex_digit_def by (rule nth_mem) simp

lemma escape_char_shape:
  "escape_char c = [c]
   \<or> (\<exists>x. escape_char c = [CHR 0x5C, x] \<and> x \<in> set (CHR 0x22 # CHR 0x5C # ''bfnrt''))
   \<or> escape_char c = [CHR 0x5C, CHR ''u'', CHR ''0'', CHR ''0'',
                          hex_digit (of_char c div 16), hex_digit (of_char c)]"
  unfolding escape_char_def by simp

lemma hex_digit_not_dollar: "hex_digit n \<noteq> CHR ''$''" "CHR ''$'' \<noteq> hex_digit n"
  using hex_digit_mem[of n] by auto

lemma escape_char_no_dollar: "c \<noteq> CHR ''$'' \<Longrightarrow> CHR ''$'' \<notin> set (escape_char c)"
  using escape_char_shape[of c] by (auto simp: hex_digit_not_dollar)

lemma prefix_escaped:
  "list_all plain_char p \<Longrightarrow> prefix p (concat (map escape_char u) @ CHR 0x22 # rest) \<Longrightarrow>
   prefix p u"
proof (induction u arbitrary: p)
  case Nil
  then show ?case by (cases p) (auto simp: plain_char_def)
next
  case (Cons x u)
  show ?case
  proof (cases p)
    case Nil
    then show ?thesis by simp
  next
    case (Cons y p')
    show ?thesis
    proof (cases "plain_char x")
      case True
      with Cons Cons.prems Cons.IH[of p'] show ?thesis
        by (simp add: escape_char_plain)
    next
      case False
      from escape_char_nonplain[OF this] obtain t where "escape_char x = CHR 0x5C # t" ..
      with Cons Cons.prems show ?thesis by (simp add: plain_char_def)
    qed
  qed
qed

lemma placeholder_plain: "token_name k \<Longrightarrow> list_all plain_char (placeholder k)"
  using token_name_chars(4)[of k] by (simp add: placeholder_Cons plain_char_def)

lemma escape_append:
  "concat (map escape_char (a @ b)) = concat (map escape_char a) @ concat (map escape_char b)"
  by simp

lemma replace_token_escaped:
  assumes "token_name k" "plain_text val" "dollar_free val"
  shows "replace_token k val pre (concat (map escape_char s) @ CHR 0x22 # rest)
           = concat (map escape_char (replace_token k val b s))
             @ CHR 0x22 # replace_token k val b' rest"
  using assms
proof (induction k val b s arbitrary: pre rule: replace_token.induct)
  case (1 key val before)
  have "replace_token key val pre (CHR 0x22 # rest)
          = CHR 0x22 # replace_token key val (pre @ [CHR 0x22]) rest"
    by (simp add: placeholder_Cons replace_token.simps)
  also have "\<dots> = CHR 0x22 # replace_token key val b' rest"
    using replace_token_before[OF 1(3)] by simp
  finally show ?case by (simp add: replace_token.simps)
next
  case (2 key val before c cs)
  note tn = 2(3) and pv = 2(4) and dv = 2(5)
  have escval: "concat (map escape_char val) = val"
    using pv by (simp add: escape_plain plain_text_def)
  show ?case
  proof (cases "prefix (placeholder key) (c # cs)")
    case True
    define s' where "s' = drop (length (placeholder key)) (c # cs)"
    from True have split: "c # cs = placeholder key @ s'"
      by (auto simp: s'_def prefix_def)
    have esc: "concat (map escape_char (c # cs)) = placeholder key @ concat (map escape_char s')"
      unfolding split escape_append using placeholder_plain[OF tn] by (simp add: escape_plain)
    have ih: "replace_token key val (pre @ placeholder key)
                (concat (map escape_char s') @ CHR 0x22 # rest)
              = concat (map escape_char (replace_token key val (before @ placeholder key) s'))
                @ CHR 0x22 # replace_token key val b' rest"
      using 2(1)[OF True tn pv dv] by (simp add: s'_def)
    have lhs: "replace_token key val pre (concat (map escape_char (c # cs)) @ CHR 0x22 # rest)
          = val @ replace_token key val (pre @ placeholder key)
                (concat (map escape_char s') @ CHR 0x22 # rest)"
      unfolding esc append_assoc
      by (simp only: replace_token_match expand_dollar_free[OF dv])
    have rhs: "replace_token key val before (c # cs)
          = val @ replace_token key val (before @ placeholder key) s'"
      unfolding split by (simp only: replace_token_match expand_dollar_free[OF dv])
    show ?thesis
      unfolding lhs rhs ih using escval by simp
  next
    case False
    have ih: "replace_token key val pre'
                (concat (map escape_char cs) @ CHR 0x22 # rest)
              = concat (map escape_char (replace_token key val (before @ [c]) cs))
                @ CHR 0x22 # replace_token key val b' rest" for pre'
      using 2(2)[OF False tn pv dv] .
    have rhs: "replace_token key val before (c # cs)
                 = c # replace_token key val (before @ [c]) cs"
      using False by (simp add: replace_token.simps)
    show ?thesis
    proof (cases "c = CHR ''$''")
      case True
      have ed: "escape_char (CHR ''$'') = [CHR ''$'']" by (simp add: escape_char_def)
      have "\<not> prefix (placeholder key) (CHR ''$'' # concat (map escape_char cs) @ CHR 0x22 # rest)"
      proof
        assume "prefix (placeholder key) (CHR ''$'' # concat (map escape_char cs) @ CHR 0x22 # rest)"
        then have "prefix (CHR ''{'' # key @ ''}'') (concat (map escape_char cs) @ CHR 0x22 # rest)"
          by (simp add: placeholder_Cons)
        moreover have "list_all plain_char (CHR ''{'' # key @ ''}'')"
          using token_name_chars(4)[OF tn] by (simp add: plain_char_def)
        ultimately have "prefix (CHR ''{'' # key @ ''}'') cs"
          by (rule prefix_escaped[rotated])
        then have "prefix (placeholder key) (c # cs)"
          using True by (simp add: placeholder_Cons)
        with False show False by contradiction
      qed
      then have "replace_token key val pre (concat (map escape_char (c # cs)) @ CHR 0x22 # rest)
             = CHR ''$'' # replace_token key val (pre @ [CHR ''$''])
                 (concat (map escape_char cs) @ CHR 0x22 # rest)"
        using True by (simp add: ed replace_token.simps)
      then show ?thesis
        unfolding rhs using ih True by (simp add: ed)
    next
      case False
      have "replace_token key val pre (concat (map escape_char (c # cs)) @ CHR 0x22 # rest)
             = escape_char c @ replace_token key val (pre @ escape_char c)
                 (concat (map escape_char cs) @ CHR 0x22 # rest)"
        using replace_token_no_dollar[OF escape_char_no_dollar[OF False]] by simp
      then show ?thesis
        unfolding rhs using ih by simp
    qed
  qed
qed

lemma replace_token_quote:
  assumes "token_name k" "plain_text val" "dollar_free val"
  shows "replace_token k val pre (quote s @ rest)
           = quote (replace_token k val [] s) @ replace_token k val [] rest"
proof -
  have "replace_token k val pre (quote s @ rest)
        = CHR 0x22 # replace_token k val (pre @ [CHR 0x22])
            (concat (map escape_char s) @ CHR 0x22 # rest)"
    by (simp add: quote_def placeholder_Cons replace_token.simps)
  then show ?thesis
    using replace_token_escaped[OF assms, of "pre @ [CHR 0x22]" s rest "[]" "[]"]
    by (simp add: quote_def)
qed

lemma replace_token_dollar_free_text:
  "CHR ''$'' \<notin> set a \<Longrightarrow> replace_token k val pre a = a"
  using replace_token_no_dollar[of a k val pre "[]"] by (simp add: replace_token.simps)

lemma k1: "dollar_free key \<Longrightarrow> replace_token k val [] key = key"
  by (rule replace_token_dollar_free_text) (simp add: dollar_free_def)

lemma replace_token_key:
  assumes "token_name k" "plain_text val" "dollar_free val" "dollar_free key"
  shows "replace_token k val pre (quote key @ rest) = quote key @ replace_token k val [] rest"
proof -
  have "replace_token k val pre (quote key @ rest)
          = quote (replace_token k val [] key) @ replace_token k val [] rest"
    by (rule replace_token_quote[OF assms(1-3)])
  also have "replace_token k val [] key = key" by (rule k1[OF assms(4)])
  finally show ?thesis .
qed

lemma num_char_not_dollar: "\<not> is_num_char (CHR ''$'')"
  by (simp add: is_num_char_def)

lemma num_chars_dollar_free: "list_all is_num_char lit \<Longrightarrow> CHR ''$'' \<notin> set lit"
  using num_char_not_dollar by (induction lit) auto

lemma replace_token_text:
  "CHR ''$'' \<notin> set a \<Longrightarrow> dollar_free val \<Longrightarrow>
   replace_token k val pre (a @ s) = a @ replace_token k val [] s"
  using replace_token_no_dollar[of a k val pre s] replace_token_before[of val k "pre @ a" s "[]"]
  by simp

lemma replace_token_char:
  "c \<noteq> CHR ''$'' \<Longrightarrow> dollar_free val \<Longrightarrow>
   replace_token k val pre (c # s) = c # replace_token k val [] s"
  using replace_token_text[of "[c]" val k pre s] by simp

lemma map_elements_Cons: "map_elements h (x # xs) = map_strings h x # map_elements h xs"
  by (cases xs) simp_all

lemma map_members_Cons: "map_members h ((k, v) # kvs) = (k, map_strings h v) # map_members h kvs"
  by (cases kvs) simp_all

lemma stringify_elements_Cons:
  "stringify_elements (x # y # r) = JSON_stringify x @ CHR '','' # stringify_elements (y # r)"
  by simp

lemma replace_token_stringify:
  assumes "token_name k" "plain_text val" "dollar_free val"
  shows
  "wf_json v \<Longrightarrow> all_keys dollar_free v \<Longrightarrow>
     replace_token k val [] (JSON_stringify v @ rest)
       = JSON_stringify (map_strings (replace_token k val []) v) @ replace_token k val [] rest"
  "wf_elements xs \<Longrightarrow> all_keys_elements dollar_free xs \<Longrightarrow>
     replace_token k val [] (stringify_elements xs @ rest)
       = stringify_elements (map_elements (replace_token k val []) xs)
         @ replace_token k val [] rest"
  "wf_members kvs \<Longrightarrow> all_keys_members dollar_free kvs \<Longrightarrow>
     replace_token k val [] (stringify_members kvs @ rest)
       = stringify_members (map_members (replace_token k val []) kvs)
         @ replace_token k val [] rest"
proof (induction v and xs and kvs arbitrary: rest and rest and rest
    rule: JSON_stringify_stringify_elements_stringify_members.induct)
  case 1
  show ?case using replace_token_text[of "''null''" val k "[]" rest] assms(3) by simp
next
  case (2 b)
  show ?case
    using replace_token_text[of "''true''" val k "[]" rest]
      replace_token_text[of "''false''" val k "[]" rest] assms(3) by simp
next
  case (3 lit)
  then have "CHR ''$'' \<notin> set lit" by (simp add: num_chars_dollar_free)
  from replace_token_text[OF this assms(3)] show ?case by simp
next
  case (4 s)
  show ?case by (simp add: replace_token_quote[OF assms])
next
  case (5 xs)
  have "replace_token k val [] (CHR ''['' # stringify_elements xs @ CHR '']'' # rest)
        = CHR ''['' # replace_token k val [] (stringify_elements xs @ CHR '']'' # rest)"
    by (rule replace_token_char[OF _ assms(3)]) simp
  also have "replace_token k val [] (stringify_elements xs @ CHR '']'' # rest)
        = stringify_elements (map_elements (replace_token k val []) xs)
          @ replace_token k val [] (CHR '']'' # rest)"
    using "5.IH" "5.prems" by simp
  also have "replace_token k val [] (CHR '']'' # rest) = CHR '']'' # replace_token k val [] rest"
    by (rule replace_token_char[OF _ assms(3)]) simp
  finally show ?case by simp
next
  case (6 kvs)
  have "replace_token k val [] (CHR ''{'' # stringify_members kvs @ CHR ''}'' # rest)
        = CHR ''{'' # replace_token k val [] (stringify_members kvs @ CHR ''}'' # rest)"
    by (rule replace_token_char[OF _ assms(3)]) simp
  also have "replace_token k val [] (stringify_members kvs @ CHR ''}'' # rest)
        = stringify_members (map_members (replace_token k val []) kvs)
          @ replace_token k val [] (CHR ''}'' # rest)"
    using "6.IH" "6.prems" by simp
  also have "replace_token k val [] (CHR ''}'' # rest) = CHR ''}'' # replace_token k val [] rest"
    by (rule replace_token_char[OF _ assms(3)]) simp
  finally show ?case by simp
next
  case 7
  show ?case by simp
next
  case (8 x)
  then show ?case by simp
next
  case (9 x y r)
  have "replace_token k val [] (JSON_stringify x @ CHR '','' # stringify_elements (y # r) @ rest)
         = JSON_stringify (map_strings (replace_token k val []) x)
           @ replace_token k val [] (CHR '','' # stringify_elements (y # r) @ rest)"
    using "9.IH"(1) "9.prems" by simp
  also have "replace_token k val [] (CHR '','' # stringify_elements (y # r) @ rest)
         = CHR '','' # replace_token k val [] (stringify_elements (y # r) @ rest)"
    by (rule replace_token_char[OF _ assms(3)]) simp
  also have "replace_token k val [] (stringify_elements (y # r) @ rest)
         = stringify_elements (map_elements (replace_token k val []) (y # r))
           @ replace_token k val [] rest"
    using "9.IH"(2) "9.prems" by simp
  finally show ?case
    by (cases r) simp_all
next
  case 10
  show ?case by simp
next
  case (11 key v)
  from "11.prems" have dk: "dollar_free key" by simp
  have "replace_token k val [] (quote key @ CHR '':'' # JSON_stringify v @ rest)
         = quote key @ replace_token k val [] (CHR '':'' # JSON_stringify v @ rest)"
    by (rule replace_token_key[OF assms dk])
  also have "replace_token k val [] (CHR '':'' # JSON_stringify v @ rest)
         = CHR '':'' # replace_token k val [] (JSON_stringify v @ rest)"
    by (rule replace_token_char[OF _ assms(3)]) simp
  also have "replace_token k val [] (JSON_stringify v @ rest)
         = JSON_stringify (map_strings (replace_token k val []) v) @ replace_token k val [] rest"
    using "11.IH" "11.prems" by simp
  finally show ?case by simp
next
  case (12 key v m r)
  from "12.prems" have dk: "dollar_free key" by simp
  obtain mk mv where m: "m = (mk, mv)" by (cases m)
  have "replace_token k val []
             (quote key @ CHR '':'' # JSON_stringify v @ CHR '','' # stringify_members (m # r) @ rest)
         = quote key @ replace_token k val []
             (CHR '':'' # JSON_stringify v @ CHR '','' # stringify_members (m # r) @ rest)"
    by (rule replace_token_key[OF assms dk])
  also have "replace_token k val []
             (CHR '':'' # JSON_stringify v @ CHR '','' # stringify_members (m # r) @ rest)
         = CHR '':'' # replace_token k val []
             (JSON_stringify v @ CHR '','' # stringify_members (m # r) @ rest)"
    by (rule replace_token_char[OF _ assms(3)]) simp
  also have "replace_token k val []
             (JSON_stringify v @ CHR '','' # stringify_members (m # r) @ rest)
         = JSON_stringify (map_strings (replace_token k val []) v)
           @ replace_token k val [] (CHR '','' # stringify_members (m # r) @ rest)"
    using "12.IH"(1) "12.prems" by simp
  also have "replace_token k val [] (CHR '','' # stringify_members (m # r) @ rest)
         = CHR '','' # replace_token k val [] (stringify_members (m # r) @ rest)"
    by (rule replace_token_char[OF _ assms(3)]) simp
  also have "replace_token k val [] (stringify_members (m # r) @ rest)
         = stringify_members (map_members (replace_token k val []) (m # r))
           @ replace_token k val [] rest"
    using "12.IH"(2) "12.prems" by simp
  finally show ?case
    unfolding m by (cases r) simp_all
qed

section \<open>substituteTokens on well-formed values\<close>

lemma substitute_text_Nil: "substitute_text [] s = s"
  by (simp add: substitute_text_def)

lemma substitute_text_Cons:
  "substitute_text ((k, val) # T) s = substitute_text T (replace_token k val [] s)"
  by (simp add: substitute_text_def)

lemma map_members_keys: "map fst (map_members h kvs) = map fst kvs"
proof (induction kvs)
  case Nil
  then show ?case by simp
next
  case (Cons a kvs)
  obtain k v where "a = (k, v)" by (cases a)
  with Cons show ?case by (simp add: map_members_Cons)
qed

lemma wf_map_strings:
  "wf_json (map_strings h v) = wf_json v"
  "wf_elements (map_elements h xs) = wf_elements xs"
  "wf_members (map_members h kvs) = wf_members kvs"
proof (induction v and xs and kvs rule: JSON_stringify_stringify_elements_stringify_members.induct)
  case (6 kvs)
  then show ?case by (simp add: map_members_keys)
next
  case (9 x y r)
  then show ?case by (cases r) simp_all
next
  case (12 k v m r)
  obtain mk mv where "m = (mk, mv)" by (cases m)
  with 12 show ?case by (cases r) simp_all
qed simp_all

lemma all_keys_map_strings:
  "all_keys p (map_strings h v) = all_keys p v"
  "all_keys_elements p (map_elements h xs) = all_keys_elements p xs"
  "all_keys_members p (map_members h kvs) = all_keys_members p kvs"
proof (induction v and xs and kvs rule: JSON_stringify_stringify_elements_stringify_members.induct)
  case (9 x y r)
  then show ?case by (cases r) simp_all
next
  case (12 k v m r)
  obtain mk mv where "m = (mk, mv)" by (cases m)
  with 12 show ?case by (cases r) simp_all
qed simp_all

lemma map_strings_comp:
  "map_strings g (map_strings f v) = map_strings (\<lambda>s. g (f s)) v"
  "map_elements g (map_elements f xs) = map_elements (\<lambda>s. g (f s)) xs"
  "map_members g (map_members f kvs) = map_members (\<lambda>s. g (f s)) kvs"
proof (induction v and xs and kvs rule: JSON_stringify_stringify_elements_stringify_members.induct)
  case (9 x y r)
  then show ?case by (cases r) simp_all
next
  case (12 k v m r)
  obtain mk mv where "m = (mk, mv)" by (cases m)
  with 12 show ?case by (cases r) simp_all
qed simp_all

lemma map_strings_cong:
  "all_strings (\<lambda>s. f s = g s) v \<Longrightarrow> map_strings f v = map_strings g v"
  "all_strings_elements (\<lambda>s. f s = g s) xs \<Longrightarrow> map_elements f xs = map_elements g xs"
  "all_strings_members (\<lambda>s. f s = g s) kvs \<Longrightarrow> map_members f kvs = map_members g kvs"
  by (induction v and xs and kvs rule: JSON_stringify_stringify_elements_stringify_members.induct)
     simp_all

lemma all_strings_True:
  "all_strings (\<lambda>s. True) v"
  "all_strings_elements (\<lambda>s. True) xs"
  "all_strings_members (\<lambda>s. True) kvs"
  by (induction v and xs and kvs rule: JSON_stringify_stringify_elements_stringify_members.induct)
     simp_all

lemma map_strings_ident: "map_strings (\<lambda>s. s) v = v"
  "map_elements (\<lambda>s. s) xs = xs"
  "map_members (\<lambda>s. s) kvs = kvs"
  by (induction v and xs and kvs rule: JSON_stringify_stringify_elements_stringify_members.induct)
     simp_all

lemma safe_tokens_Cons:
  "safe_tokens ((k, val) # T)
     = (token_name k \<and> plain_text val \<and> dollar_free val \<and> safe_tokens T)"
  by (simp add: safe_tokens_def)

lemma substitute_text_stringify:
  "safe_tokens T \<Longrightarrow> wf_json v \<Longrightarrow> all_keys dollar_free v \<Longrightarrow>
   substitute_text T (JSON_stringify v) = JSON_stringify (map_strings (substitute_text T) v)"
proof (induction T arbitrary: v)
  case Nil
  have "map_strings (substitute_text []) v = map_strings (\<lambda>s. s) v"
    by (rule arg_cong[where f="\<lambda>h. map_strings h v"]) (simp add: fun_eq_iff substitute_text_Nil)
  then show ?case by (simp add: substitute_text_Nil map_strings_ident)
next
  case (Cons a T)
  obtain k val where a: "a = (k, val)" by (cases a)
  from Cons.prems(1) a have s: "token_name k" "plain_text val" "dollar_free val" "safe_tokens T"
    by (simp_all add: safe_tokens_Cons)
  let ?v1 = "map_strings (replace_token k val []) v"
  have "replace_token k val [] (JSON_stringify v @ [])
          = JSON_stringify ?v1 @ replace_token k val [] []"
    by (rule replace_token_stringify(1)[OF s(1-3) Cons.prems(2,3)])
  then have step: "replace_token k val [] (JSON_stringify v) = JSON_stringify ?v1"
    by (simp add: replace_token.simps)
  have e1: "substitute_text (a # T) (JSON_stringify v) = substitute_text T (JSON_stringify ?v1)"
    unfolding a substitute_text_Cons step by (rule refl)
  have e2: "substitute_text T (JSON_stringify ?v1)
          = JSON_stringify (map_strings (substitute_text T) ?v1)"
    using Cons.IH[OF s(4), of ?v1] Cons.prems(2,3)
    by (simp add: wf_map_strings all_keys_map_strings)
  have e3: "map_strings (substitute_text T) ?v1 = map_strings (substitute_text (a # T)) v"
    unfolding map_strings_comp a
    by (rule arg_cong[where f="\<lambda>h. map_strings h v"])
       (simp add: fun_eq_iff substitute_text_Cons)
  show ?case unfolding e1 e2 e3 by (rule refl)
qed

lemma substituteTokens_strings:
  assumes "safe_tokens T" "wf_json v" "all_keys dollar_free v"
  shows "substituteTokens (Some v) T = Inr (map_strings (substitute_text T) v)"
  using substitute_text_stringify[OF assms]
    JSON_parse_stringify[of "map_strings (substitute_text T) v"] assms(2)
  by (simp add: substituteTokens_def wf_map_strings)

section \<open>Placeholders of tokens that are not in the token set\<close>

lemma placeholder_tail_dollar_free:
  "token_name k \<Longrightarrow> CHR ''$'' \<notin> set (CHR ''{'' # k @ ''}'')"
  using token_name_chars(1)[of k] by simp

lemma not_prefix_placeholder_append:
  assumes "token_name k" "\<not> prefix (placeholder k) (c # cs)"
  shows "\<not> prefix (placeholder k) ((c # cs) @ placeholder n @ b)"
proof
  assume "prefix (placeholder k) ((c # cs) @ placeholder n @ b)"
  then consider "prefix (placeholder k) (c # cs)"
    | us where "placeholder k = (c # cs) @ us" "prefix us (placeholder n @ b)"
    unfolding prefix_append by blast
  then show False
  proof cases
    case 1
    with assms(2) show False by contradiction
  next
    case 2
    show False
    proof (cases us)
      case Nil
      with 2(1) assms(2) show False by simp
    next
      case (Cons u us')
      with 2(2) have "u = CHR ''$''" by (simp add: placeholder_Cons)
      moreover have "u \<in> set (CHR ''{'' # k @ ''}'')"
      proof -
        from 2(1) Cons have "tl (placeholder k) = cs @ u # us'" by simp
        then have "u \<in> set (tl (placeholder k))" by simp
        then show ?thesis by (simp add: placeholder_Cons)
      qed
      ultimately show False using placeholder_tail_dollar_free[OF assms(1)] by blast
    qed
  qed
qed

lemma replace_token_around_gen:
  assumes "token_name k" "token_name n" "k \<noteq> n" "dollar_free val"
  shows "replace_token k val pre (a @ placeholder n @ b)
           = replace_token k val pre a @ placeholder n @ replace_token k val [] b"
  using assms
proof (induction k val pre a rule: replace_token.induct)
  case (1 key val before)
  have "replace_token key val before (placeholder n @ b)
          = placeholder n @ replace_token key val (before @ placeholder n) b"
    by (rule replace_token_skip[OF 1(1,2,3)])
  also have "replace_token key val (before @ placeholder n) b = replace_token key val [] b"
    by (rule replace_token_before[OF 1(4)])
  finally show ?case by (simp add: replace_token.simps)
next
  case (2 key val before c cs)
  show ?case
  proof (cases "prefix (placeholder key) (c # cs)")
    case True
    define s' where "s' = drop (length (placeholder key)) (c # cs)"
    from True have split: "c # cs = placeholder key @ s'"
      by (auto simp: s'_def prefix_def)
    have ih: "replace_token key val (before @ placeholder key) (s' @ placeholder n @ b)
              = replace_token key val (before @ placeholder key) s' @ placeholder n
                @ replace_token key val [] b"
      using 2(1)[OF True 2(3,4,5,6)] by (simp add: s'_def)
    have "replace_token key val before ((c # cs) @ placeholder n @ b)
            = val @ replace_token key val (before @ placeholder key) (s' @ placeholder n @ b)"
      unfolding split append_assoc
      by (simp only: replace_token_match expand_dollar_free[OF 2(6)])
    moreover have "replace_token key val before (c # cs)
            = val @ replace_token key val (before @ placeholder key) s'"
      unfolding split by (simp only: replace_token_match expand_dollar_free[OF 2(6)])
    ultimately show ?thesis using ih by simp
  next
    case False
    have np: "\<not> prefix (placeholder key) ((c # cs) @ placeholder n @ b)"
      by (rule not_prefix_placeholder_append[OF 2(3) False])
    have ih: "replace_token key val (before @ [c]) (cs @ placeholder n @ b)
              = replace_token key val (before @ [c]) cs @ placeholder n
                @ replace_token key val [] b"
      by (rule 2(2)[OF False 2(3,4,5,6)])
    have "replace_token key val before ((c # cs) @ placeholder n @ b)
            = c # replace_token key val (before @ [c]) (cs @ placeholder n @ b)"
      using np by (simp add: replace_token.simps)
    moreover have "replace_token key val before (c # cs)
            = c # replace_token key val (before @ [c]) cs"
      using False by (simp add: replace_token.simps)
    ultimately show ?thesis using ih by simp
  qed
qed

lemma substitute_text_around:
  "safe_tokens T \<Longrightarrow> token_name n \<Longrightarrow> n \<notin> fst ` set T \<Longrightarrow>
   substitute_text T (a @ placeholder n @ b)
     = substitute_text T a @ placeholder n @ substitute_text T b"
proof (induction T arbitrary: a b)
  case Nil
  then show ?case by (simp add: substitute_text_Nil)
next
  case (Cons e T)
  obtain k val where e: "e = (k, val)" by (cases e)
  from Cons.prems e have s: "token_name k" "dollar_free val" "safe_tokens T" "k \<noteq> n"
    "n \<notin> fst ` set T"
    by (auto simp: safe_tokens_Cons)
  have "replace_token k val [] (a @ placeholder n @ b)
          = replace_token k val [] a @ placeholder n @ replace_token k val [] b"
    by (rule replace_token_around_gen[OF s(1) Cons.prems(2) s(4) s(2)])
  then show ?case
    unfolding e substitute_text_Cons
    using Cons.IH[OF s(3) Cons.prems(2) s(5)] by simp
qed

text \<open>
  Claim C2 as stated fails: a token value with a double quote changes the structure of
  the serialised text. Here the value of \<^verbatim>\<open>M\<close> closes the string and adds a second key
  \<^verbatim>\<open>a\<close>, which replaces the first, and the placeholder \<^verbatim>\<open>${N}\<close> of a token that is
  not in the token set is gone from the result.
\<close>

theorem unresolved_tokens_counterexample:
  \<open>substituteTokens (Some (JObj [(''a'', JStr ''${N}''), (''b'', JStr ''${M}'')]))
     [(''M'', ''","a":"zap'')]
   = Inr (JObj [(''a'', JStr ''zap''), (''b'', JStr [])])\<close>
  by code_simp

text \<open>
  Claim C2, amended. For a value with distinct keys without dollar signs, a token set
  whose names are made of letters, digits and underscores and whose values contain no
  dollar sign, double quote, backslash or control character, and a token name \<open>n\<close> of
  that kind that is not in the token set: \<^verbatim>\<open>substituteTokens\<close> returns the value in which
  every string is the substitution of the original string, and the substitution of a
  string passes every occurrence of \<^verbatim>\<open>${n}\<close> on as it is, substituting the text before
  and the text after it separately.
\<close>

theorem unresolved_tokens_preserved:
  assumes "safe_tokens T" and "token_name n" and "n \<notin> fst ` set T"
    and "wf_json v" and "all_keys dollar_free v"
  shows "substituteTokens (Some v) T = Inr (map_strings (substitute_text T) v)
       \<and> (\<forall>a b. substitute_text T (a @ placeholder n @ b)
                   = substitute_text T a @ placeholder n @ substitute_text T b)"
  using substituteTokens_strings[OF assms(1,4,5)] substitute_text_around[OF assms(1,2,3)]
  by simp

theorem unresolved_tokens_preserved_witness:
  "safe_tokens [(''A'', ''x'')] \<and> token_name ''B'' \<and> ''B'' \<notin> fst ` set [(''A'', ''x'')]
   \<and> wf_json (JObj [(''k'', JStr ''${A}-${B}'')])
   \<and> all_keys dollar_free (JObj [(''k'', JStr ''${A}-${B}'')])
   \<and> substituteTokens (Some (JObj [(''k'', JStr ''${A}-${B}'')])) [(''A'', ''x'')]
       = Inr (JObj [(''k'', JStr ''x-${B}'')])"
proof -
  have h1: "safe_tokens [(''A'', ''x'')]" by code_simp
  have h2: "token_name ''B''" by code_simp
  have h3: "''B'' \<notin> fst ` set [(''A'', ''x'')]" by simp
  have h4: "wf_json (JObj [(''k'', JStr ''${A}-${B}'')])" by simp
  have h5: "all_keys dollar_free (JObj [(''k'', JStr ''${A}-${B}'')])"
    by (simp add: dollar_free_def)
  have e: "map_strings (substitute_text [(''A'', ''x'')]) (JObj [(''k'', JStr ''${A}-${B}'')])
             = JObj [(''k'', JStr ''x-${B}'')]"
    by code_simp
  from unresolved_tokens_preserved[OF h1 h2 h3 h4 h5] e h1 h2 h3 h4 h5
  show ?thesis by simp
qed


section \<open>Loading a batch of command documents\<close>

lemma load_file_eq:
  "load_file rel n content st =
     \<lparr>commands = commands st @ List.map_filter loaded_command [(rel, n, content)],
      reported = reported st @ List.map_filter failure_report [(rel, n, content)]\<rparr>"
proof (cases content)
  case (Throws msg)
  then show ?thesis by (simp add: load_file_def List.map_filter_def)
next
  case (Loaded v)
  show ?thesis
  proof (cases v)
    case None
    with Loaded show ?thesis by (simp add: load_file_def List.map_filter_def)
  next
    case (Some d)
    with Loaded show ?thesis
      by (cases d) (simp_all add: load_file_def List.map_filter_def)
  qed
qed

lemma map_filter_app:
  "List.map_filter f (xs @ ys) = List.map_filter f xs @ List.map_filter f ys"
  by (simp add: List.map_filter_def)

lemma map_filter_Cons_single:
  "List.map_filter f (x # xs) = List.map_filter f [x] @ List.map_filter f xs"
  by (simp add: List.map_filter_def)

text \<open>
  Claim C6 as stated fails: the loader checks neither \<^verbatim>\<open>name\<close> nor \<^verbatim>\<open>prompt\<close>. Of three
  documents, the second without a prompt, all three are returned and nothing is reported.
\<close>

theorem loadCommands_counterexample:
  "loadSourceCommands (Some
     [File ''a.yaml'' (Loaded (Some (JObj [(''name'', JStr ''a''), (''prompt'', JStr ''Do A'')]))),
      File ''b.yaml'' (Loaded (Some (JObj [(''name'', JStr ''b''), (''description'', JStr ''no prompt'')]))),
      File ''c.yaml'' (Loaded (Some (JObj [(''name'', JStr ''c''), (''prompt'', JStr ''Do C'')])))])
   = Inr \<lparr>commands =
       [\<lparr>document = JObj [(''name'', JStr ''a''), (''prompt'', JStr ''Do A'')],
         filePath = ''a.yaml'', subfolder = '''', fileName = ''a''\<rparr>,
        \<lparr>document = JObj [(''name'', JStr ''b''), (''description'', JStr ''no prompt'')],
         filePath = ''b.yaml'', subfolder = '''', fileName = ''b''\<rparr>,
        \<lparr>document = JObj [(''name'', JStr ''c''), (''prompt'', JStr ''Do C'')],
         filePath = ''c.yaml'', subfolder = '''', fileName = ''c''\<rparr>],
      reported = []\<rparr>"
  by (simp add: loadSourceCommands_def load_file_def endsWith_def join_relative_def
      parsed_name_def)

text \<open>
  Claim C6, amended. Loading a directory tree all of whose directories can be listed never
  aborts: it returns, in the order of traversal, exactly the documents for which
  \<^verbatim>\<open>yaml.load\<close> returned an object or an array, each with its path, subfolder and file
  name, and reports exactly one error for every other document (\<^verbatim>\<open>yaml.load\<close> threw or
  returned a scalar, null or nothing), which is excluded. A document that parses is
  loaded whether or not it has a name or a prompt.
\<close>

theorem loadCommands_partial_batch:
  "readable es \<Longrightarrow>
   loadCommandsFromDirectory es rel st
     = Inr \<lparr>commands = commands st @ List.map_filter loaded_command (documents es rel),
            reported = reported st @ List.map_filter failure_report (documents es rel)\<rparr>"
proof (induction es rel st rule: loadCommandsFromDirectory.induct)
  case (1 relativePath st)
  then show ?case by (simp add: List.map_filter_def)
next
  case (2 n sub entries relativePath st)
  then show ?case by (simp add: map_filter_app)
next
  case (3 n entries relativePath st)
  then show ?case by simp
next
  case (4 n content entries relativePath st)
  show ?case
  proof (cases "endsWith n ''.yaml'' \<or> endsWith n ''.yml''")
    case True
    have "loadCommandsFromDirectory (File n content # entries) relativePath st
          = loadCommandsFromDirectory entries relativePath (load_file relativePath n content st)"
      using True by simp
    also have "\<dots> = Inr \<lparr>commands = commands (load_file relativePath n content st)
                 @ List.map_filter loaded_command (documents entries relativePath),
               reported = reported (load_file relativePath n content st)
                 @ List.map_filter failure_report (documents entries relativePath)\<rparr>"
      using 4 True by simp
    also have "\<dots> = Inr \<lparr>commands = commands st
                 @ List.map_filter loaded_command (documents (File n content # entries) relativePath),
               reported = reported st
                 @ List.map_filter failure_report (documents (File n content # entries) relativePath)\<rparr>"
      using True
      by (simp add: load_file_eq List.map_filter_def)
    finally show ?thesis .
  next
    case False
    with 4 show ?thesis by simp
  qed
next
  case (5 n entries relativePath st)
  then show ?case by simp
qed

theorem loadCommands_partial_batch_witness:
  "readable
     [File ''a.yaml'' (Loaded (Some (JObj [(''name'', JStr ''a''), (''prompt'', JStr ''Do A'')]))),
      Dir ''git'' [File ''b.yml'' (Throws ''bad indentation'')],
      File ''c.yaml'' (Loaded (Some (JObj [(''name'', JStr ''c''), (''prompt'', JStr ''Do C'')])))]
   \<and> loadCommandsFromDirectory
     [File ''a.yaml'' (Loaded (Some (JObj [(''name'', JStr ''a''), (''prompt'', JStr ''Do A'')]))),
      Dir ''git'' [File ''b.yml'' (Throws ''bad indentation'')],
      File ''c.yaml'' (Loaded (Some (JObj [(''name'', JStr ''c''), (''prompt'', JStr ''Do C'')])))]
     [] \<lparr>commands = [], reported = []\<rparr>
   = Inr \<lparr>commands =
       [\<lparr>document = JObj [(''name'', JStr ''a''), (''prompt'', JStr ''Do A'')],
         filePath = ''a.yaml'', subfolder = '''', fileName = ''a''\<rparr>,
        \<lparr>document = JObj [(''name'', JStr ''c''), (''prompt'', JStr ''Do C'')],
         filePath = ''c.yaml'', subfolder = '''', fileName = ''c''\<rparr>],
      reported = [''git/b.yml'']\<rparr>"
  using loadCommands_partial_batch [of
     "[File ''a.yaml'' (Loaded (Some (JObj [(''name'', JStr ''a''), (''prompt'', JStr ''Do A'')]))),
      Dir ''git'' [File ''b.yml'' (Throws ''bad indentation'')],
      File ''c.yaml'' (Loaded (Some (JObj [(''name'', JStr ''c''), (''prompt'', JStr ''Do C'')])))]"
     "[]" "\<lparr>commands = [], reported = []\<rparr>"]
  by (simp add: List.map_filter_def endsWith_def join_relative_def parsed_name_def)

section \<open>Idempotence of substitution\<close>

lemma covered_append_dollar_free:
  "CHR ''$'' \<notin> set a \<Longrightarrow> covered K (a @ s) = covered K s"
  by (induction a) auto

lemma covered_suffix: "covered K (a @ s) \<Longrightarrow> covered K s"
  by (induction a) auto

lemma covered_mono: "set K \<subseteq> set K' \<Longrightarrow> covered K s \<Longrightarrow> covered K' s"
proof (induction s)
  case Nil
  then show ?case by simp
next
  case (Cons c s)
  from Cons.prems(2) have tl: "covered K s" by simp
  have "list_ex (\<lambda>key. prefix (''{'' @ key @ ''}'') s) K'" if "c = CHR ''$''"
  proof -
    from Cons.prems(2) that obtain key where "key \<in> set K" "prefix (''{'' @ key @ ''}'') s"
      by (auto simp: list_ex_iff)
    with Cons.prems(1) show ?thesis unfolding list_ex_iff by blast
  qed
  with Cons.IH[OF Cons.prems(1) tl] show ?case by simp
qed

lemma covered_Nil: "covered [] s \<Longrightarrow> dollar_free s"
  by (induction s) (auto simp: dollar_free_def split: if_splits)

lemma covered_replace_token:
  assumes "token_name k" "list_all token_name K" "dollar_free val"
  shows "covered (k # K) s \<Longrightarrow> covered (removeAll k K) (replace_token k val pre s)"
  using assms
proof (induction k val pre s rule: replace_token.induct)
  case (1 key val before)
  then show ?case by (simp add: replace_token.simps)
next
  case (2 key val before c cs)
  show ?case
  proof (cases "prefix (placeholder key) (c # cs)")
    case True
    define s' where "s' = drop (length (placeholder key)) (c # cs)"
    from True have split: "c # cs = placeholder key @ s'"
      by (auto simp: s'_def prefix_def)
    from 2(3) have "covered (key # K) s'"
      unfolding split by (rule covered_suffix)
    from 2(1)[OF True this[unfolded s'_def] 2(4,5,6)]
    have ih: "covered (removeAll key K)
                (replace_token key val (before @ placeholder key) s')"
      by (simp add: s'_def)
    have "replace_token key val before (c # cs)
            = val @ replace_token key val (before @ placeholder key) s'"
      unfolding split by (simp only: replace_token_match expand_dollar_free[OF 2(6)])
    then show ?thesis
      using ih 2(6) by (simp add: covered_append_dollar_free dollar_free_def)
  next
    case False
    from 2(3) have cov: "covered (key # K) cs" by simp
    have ih: "covered (removeAll key K) (replace_token key val (before @ [c]) cs)"
      by (rule 2(2)[OF False cov 2(4,5,6)])
    have r: "replace_token key val before (c # cs)
               = c # replace_token key val (before @ [c]) cs"
      using False by (simp add: replace_token.simps)
    have "list_ex (\<lambda>key'. prefix (''{'' @ key' @ ''}'')
             (replace_token key val (before @ [c]) cs)) (removeAll key K)"
      if c: "c = CHR ''$''"
    proof -
      from 2(3) c obtain key' where k': "key' \<in> set (key # K)"
        "prefix (''{'' @ key' @ ''}'') cs"
        by (auto simp: list_ex_iff)
      have "key' \<noteq> key"
      proof
        assume "key' = key"
        with k'(2) c have "prefix (placeholder key) (c # cs)"
          by (simp add: placeholder_Cons)
        with False show False by contradiction
      qed
      with k'(1) have mem: "key' \<in> set (removeAll key K)" by simp
      with 2(5) have tn: "token_name key'" by (auto simp: list_all_iff)
      from k'(2) obtain t where cs: "cs = (CHR ''{'' # key' @ ''}'') @ t"
        by (auto simp: prefix_def)
      have "replace_token key val (before @ [c]) cs
              = (CHR ''{'' # key' @ ''}'')
                @ replace_token key val ((before @ [c]) @ (CHR ''{'' # key' @ ''}'')) t"
        unfolding cs by (rule replace_token_no_dollar[OF placeholder_tail_dollar_free[OF tn]])
      then have "prefix (''{'' @ key' @ ''}'') (replace_token key val (before @ [c]) cs)"
        by simp
      with mem show ?thesis by (auto simp: list_ex_iff)
    qed
    then show ?thesis unfolding r using ih by simp
  qed
qed

lemma safe_tokens_names: "safe_tokens T \<Longrightarrow> list_all token_name (map fst T)"
  by (induction T) (auto simp: safe_tokens_def)

lemma covered_substitute_text:
  "safe_tokens T \<Longrightarrow> covered (map fst T) s \<Longrightarrow> dollar_free (substitute_text T s)"
proof (induction T arbitrary: s)
  case Nil
  then show ?case by (simp add: substitute_text_Nil covered_Nil)
next
  case (Cons e T)
  obtain k val where e: "e = (k, val)" by (cases e)
  from Cons.prems(1) e have s: "token_name k" "dollar_free val" "safe_tokens T"
    by (simp_all add: safe_tokens_Cons)
  from Cons.prems(2) e have "covered (k # map fst T) s" by simp
  from covered_replace_token[OF s(1) safe_tokens_names[OF s(3)] s(2) this, of "[]"]
  have "covered (removeAll k (map fst T)) (replace_token k val [] s)" .
  then have "covered (map fst T) (replace_token k val [] s)"
    by (rule covered_mono[rotated]) auto
  from Cons.IH[OF s(3) this] show ?case
    unfolding e substitute_text_Cons .
qed

lemma substitute_text_dollar_free: "dollar_free s \<Longrightarrow> substitute_text T s = s"
proof (induction T)
  case Nil
  then show ?case by (simp add: substitute_text_Nil)
next
  case (Cons e T)
  obtain k val where e: "e = (k, val)" by (cases e)
  from Cons show ?case
    unfolding e substitute_text_Cons
    by (simp add: replace_token_dollar_free_text dollar_free_def)
qed

lemma all_strings_mono:
  "(\<And>s. p s \<Longrightarrow> q s) \<Longrightarrow> all_strings p v \<Longrightarrow> all_strings q v"
  "(\<And>s. p s \<Longrightarrow> q s) \<Longrightarrow> all_strings_elements p xs \<Longrightarrow> all_strings_elements q xs"
  "(\<And>s. p s \<Longrightarrow> q s) \<Longrightarrow> all_strings_members p kvs \<Longrightarrow> all_strings_members q kvs"
  by (induction v and xs and kvs rule: JSON_stringify_stringify_elements_stringify_members.induct)
     simp_all

text \<open>
  Claim C1 as stated fails: a token value may itself hold a placeholder of the token
  set, which the second substitution replaces again. The token set covers the only
  placeholder of the value in both examples.
\<close>

theorem substituteTokens_idempotent_counterexample:
  "substituteTokens (Some (JStr ''${A}'')) [(''A'', ''${A}x'')] = Inr (JStr ''${A}x'')
   \<and> substituteTokens (Some (JStr ''${A}x'')) [(''A'', ''${A}x'')] = Inr (JStr ''${A}xx'')
   \<and> substituteTokens (Some (JStr ''${A}'')) [(''B'', ''z''), (''A'', ''${B}'')]
       = Inr (JStr ''${B}'')
   \<and> substituteTokens (Some (JStr ''${B}'')) [(''B'', ''z''), (''A'', ''${B}'')]
       = Inr (JStr ''z'')"
  by code_simp

text \<open>
  Claim C1, amended. Token substitution is idempotent for a value with distinct keys
  without dollar signs and a token set whose names are made of letters, digits and
  underscores and whose values contain no dollar sign, double quote, backslash or control
  character, when the token set covers the value: every dollar sign in a string of the
  value begins a placeholder \<^verbatim>\<open>${NAME}\<close> of a token of the set. Then
  \<^verbatim>\<open>substituteTokens\<close> returns a value, and substituting again returns the same value.
\<close>

theorem substituteTokens_idempotent:
  assumes "safe_tokens T" and "wf_json v" and "all_keys dollar_free v"
    and "all_strings (covered (map fst T)) v"
  shows "\<exists>r. substituteTokens (Some v) T = Inr r \<and> substituteTokens (Some r) T = Inr r"
proof -
  let ?r = "map_strings (substitute_text T) v"
  have first: "substituteTokens (Some v) T = Inr ?r"
    by (rule substituteTokens_strings[OF assms(1,2,3)])
  have "substituteTokens (Some ?r) T = Inr (map_strings (substitute_text T) ?r)"
    by (rule substituteTokens_strings[OF assms(1)])
       (simp_all add: wf_map_strings all_keys_map_strings assms(2,3))
  moreover have "map_strings (substitute_text T) ?r = ?r"
  proof -
    have "all_strings (\<lambda>s. substitute_text T (substitute_text T s) = substitute_text T s) v"
      using assms(4)
      by (rule all_strings_mono(1)[rotated])
         (simp add: substitute_text_dollar_free covered_substitute_text[OF assms(1)])
    from map_strings_cong(1)[OF this] show ?thesis by (simp add: map_strings_comp)
  qed
  ultimately show ?thesis using first by simp
qed

theorem substituteTokens_idempotent_witness:
  "safe_tokens [(''A'', ''x'')]
   \<and> wf_json (JObj [(''env'', JObj [(''K'', JStr ''Bearer ${A}'')])])
   \<and> all_keys dollar_free (JObj [(''env'', JObj [(''K'', JStr ''Bearer ${A}'')])])
   \<and> all_strings (covered (map fst [(''A'', ''x'')]))
        (JObj [(''env'', JObj [(''K'', JStr ''Bearer ${A}'')])])
   \<and> substituteTokens (Some (JObj [(''env'', JObj [(''K'', JStr ''Bearer ${A}'')])]))
        [(''A'', ''x'')]
       = Inr (JObj [(''env'', JObj [(''K'', JStr ''Bearer x'')])])
   \<and> substituteTokens (Some (JObj [(''env'', JObj [(''K'', JStr ''Bearer x'')])]))
        [(''A'', ''x'')]
       = Inr (JObj [(''env'', JObj [(''K'', JStr ''Bearer x'')])])"
proof -
  have h1: "safe_tokens [(''A'', ''x'')]" by code_simp
  have h2: "wf_json (JObj [(''env'', JObj [(''K'', JStr ''Bearer ${A}'')])])" by simp
  have h3: "all_keys dollar_free (JObj [(''env'', JObj [(''K'', JStr ''Bearer ${A}'')])])"
    by (simp add: dollar_free_def)
  have h4: "all_strings (covered (map fst [(''A'', ''x'')]))
        (JObj [(''env'', JObj [(''K'', JStr ''Bearer ${A}'')])])"
    by simp
  have e: "substituteTokens (Some (JObj [(''env'', JObj [(''K'', JStr ''Bearer ${A}'')])]))
        [(''A'', ''x'')]
       = Inr (JObj [(''env'', JObj [(''K'', JStr ''Bearer x'')])])"
    by code_simp
  from substituteTokens_idempotent[OF h1 h2 h3 h4] e
  have "substituteTokens (Some (JObj [(''env'', JObj [(''K'', JStr ''Bearer x'')])]))
        [(''A'', ''x'')]
       = Inr (JObj [(''env'', JObj [(''K'', JStr ''Bearer x'')])])"
    by auto
  with h1 h2 h3 h4 e show ?thesis by blast
qed
subsection \<open>The VS Code pipeline\<close>

text \<open>
  \<^verbatim>\<open>setupVSCode\<close> substitutes the tokens, serialises the result, rewrites every
  \<^verbatim>\<open>{{NAME}}\<close> of the text to \<^verbatim>\<open>${input:NAME}\<close> and parses the text again. The rewrite is
  followed through the serialised text of a fragment given as a template.
\<close>


declare convert_placeholders.simps [simp del]

lemma brace_match_not_brace: "c \<noteq> CHR ''{'' \<Longrightarrow> brace_match (c # s) = None"
  by (simp add: brace_match_def)

lemma convert_no_brace:
  "CHR ''{'' \<notin> set a \<Longrightarrow> convert_placeholders (a @ s) = a @ convert_placeholders s"
  by (induction a) (auto simp: convert_placeholders.simps brace_match_not_brace)

lemma convert_single_brace:
  "x \<noteq> CHR ''{'' \<Longrightarrow>
   convert_placeholders (CHR ''{'' # x # s) = CHR ''{'' # convert_placeholders (x # s)"
  by (simp add: convert_placeholders.simps brace_match_def)

lemma convert_placeholder:
  assumes "token_name k"
  shows "convert_placeholders (placeholder k @ s) = placeholder k @ convert_placeholders s"
proof -
  have nb: "CHR ''{'' \<notin> set (k @ ''}'')"
    using token_name_chars(3)[OF assms] by simp
  obtain x t where xt: "k @ ''}'' = x # t" by (cases k) auto
  with nb have x: "x \<noteq> CHR ''{''" by (metis list.set_intros(1))
  have "convert_placeholders (placeholder k @ s)
          = CHR ''$'' # convert_placeholders (CHR ''{'' # x # (t @ s))"
    using convert_no_brace[of "''$''" "CHR ''{'' # x # (t @ s)"] xt
    by (simp add: placeholder_Cons)
  also have "convert_placeholders (CHR ''{'' # x # (t @ s))
          = CHR ''{'' # convert_placeholders ((k @ ''}'') @ s)"
    using convert_single_brace[OF x, of "t @ s"] xt by simp
  also have "convert_placeholders ((k @ ''}'') @ s) = (k @ ''}'') @ convert_placeholders s"
    by (rule convert_no_brace[OF nb])
  finally show ?thesis by (simp add: placeholder_Cons)
qed

lemma brace_match_input:
  assumes "n \<noteq> []" "CHR ''}'' \<notin> set n"
  shows "brace_match (''{{'' @ n @ ''}}'' @ s) = Some (n, s)"
proof -
  have all: "\<forall>x\<in>set n. x \<noteq> CHR ''}''" using assms(2) by auto
  have "takeWhile (\<lambda>c. c \<noteq> CHR ''}'') (n @ ''}}'' @ s) = n"
    using all by (simp add: takeWhile_append2)
  moreover have "dropWhile (\<lambda>c. c \<noteq> CHR ''}'') (n @ ''}}'' @ s) = ''}}'' @ s"
    using all by (simp add: dropWhile_append2)
  ultimately show ?thesis using assms(1) by (simp add: brace_match_def)
qed

lemma convert_input:
  assumes "n \<noteq> []" "CHR ''}'' \<notin> set n"
  shows "convert_placeholders (''{{'' @ n @ ''}}'' @ s)
           = ''${input:'' @ n @ ''}'' @ convert_placeholders s"
proof -
  have "''{{'' @ n @ ''}}'' @ s = CHR ''{'' # (CHR ''{'' # n @ ''}}'' @ s)" by simp
  moreover have "drop (length n + 4) (''{{'' @ n @ ''}}'' @ s) = s"
    by (simp add: eval_nat_numeral)
  ultimately show ?thesis
    using brace_match_input[OF assms, of s]
      convert_placeholders.simps(2)[of "CHR ''{''" "CHR ''{'' # n @ ''}}'' @ s"]
    by simp
qed

lemma hex_digit_not_brace: "hex_digit n \<noteq> CHR ''{''" "hex_digit n \<noteq> CHR ''}''"
  "CHR ''{'' \<noteq> hex_digit n" "CHR ''}'' \<noteq> hex_digit n"
  using hex_digit_mem[of n] by auto

lemma escape_char_no_brace:
  "c \<noteq> CHR ''{'' \<Longrightarrow> CHR ''{'' \<notin> set (escape_char c)"
  "c \<noteq> CHR ''}'' \<Longrightarrow> CHR ''}'' \<notin> set (escape_char c)"
  using escape_char_shape[of c] by (auto simp: hex_digit_not_brace)

lemma escape_char_nonempty: "escape_char c \<noteq> []"
  using escape_char_shape[of c] by auto

lemma escape_no_open_brace:
  "CHR ''{'' \<notin> set a \<Longrightarrow> CHR ''{'' \<notin> set (concat (map escape_char a))"
proof (induction a)
  case Nil
  then show ?case by simp
next
  case (Cons c a)
  then have "c \<noteq> CHR ''{''" by auto
  from escape_char_no_brace(1)[OF this] Cons show ?case by simp
qed

lemma escape_no_close_brace:
  "CHR ''}'' \<notin> set a \<Longrightarrow> CHR ''}'' \<notin> set (concat (map escape_char a))"
proof (induction a)
  case Nil
  then show ?case by simp
next
  case (Cons c a)
  then have "c \<noteq> CHR ''}''" by auto
  from escape_char_no_brace(2)[OF this] Cons show ?case by simp
qed

lemmas escape_no_brace = escape_no_open_brace escape_no_close_brace

lemma escape_nonempty: "n \<noteq> [] \<Longrightarrow> concat (map escape_char n) \<noteq> []"
proof (cases n)
  case Nil
  then show "n \<noteq> [] \<Longrightarrow> ?thesis" by simp
next
  case (Cons c cs)
  then show ?thesis using escape_char_nonempty[of c] by simp
qed

lemma brace_free_tokens_value:
  "brace_free_tokens T \<Longrightarrow> map_of T k = Some val \<Longrightarrow> brace_free val"
  by (induction T) (auto simp: brace_free_tokens_def split: if_splits)

lemma safe_tokens_value:
  "safe_tokens T \<Longrightarrow> map_of T k = Some val \<Longrightarrow> plain_text val \<and> dollar_free val"
  by (induction T) (auto simp: safe_tokens_def split: if_splits)

lemma convert_resolved_segment:
  assumes "safe_tokens T" "brace_free_tokens T" "wf_segment sg"
  shows "convert_placeholders (concat (map escape_char (resolve_segment False T sg)) @ s)
           = concat (map escape_char (resolve_segment True T sg)) @ convert_placeholders s"
proof (cases sg)
  case (Lit lt)
  with assms(3) have "CHR ''{'' \<notin> set lt" by (simp add: brace_free_def)
  from convert_no_brace[OF escape_no_brace(1)[OF this]] Lit show ?thesis by simp
next
  case (Tok k)
  with assms(3) have tn: "token_name k" by simp
  show ?thesis
  proof (cases "map_of T k")
    case None
    have "concat (map escape_char (placeholder k)) = placeholder k"
      by (rule escape_plain[OF placeholder_plain[OF tn]])
    with None Tok convert_placeholder[OF tn] show ?thesis by simp
  next
    case (Some val)
    from brace_free_tokens_value[OF assms(2) Some] have "CHR ''{'' \<notin> set val"
      by (simp add: brace_free_def)
    from convert_no_brace[OF escape_no_brace(1)[OF this]] Some Tok show ?thesis by simp
  qed
next
  case (Inp n)
  with assms(3) have n: "n \<noteq> []" "CHR ''}'' \<notin> set n" by (simp_all add: brace_free_def)
  have e1: "concat (map escape_char (''{{'' @ n @ ''}}''))
              = ''{{'' @ concat (map escape_char n) @ ''}}''"
    by (simp add: escape_char_def)
  have e2: "concat (map escape_char (''${input:'' @ n @ ''}''))
              = ''${input:'' @ concat (map escape_char n) @ ''}''"
    by (simp add: escape_char_def)
  have "convert_placeholders ((''{{'' @ concat (map escape_char n) @ ''}}'') @ s)
          = (''${input:'' @ concat (map escape_char n) @ ''}'') @ convert_placeholders s"
    using convert_input[OF escape_nonempty[OF n(1)] escape_no_brace(2)[OF n(2)], of s]
    by simp
  then show ?thesis unfolding Inp resolve_segment.simps if_True if_False e1 e2 .
qed

lemma convert_resolved_segments:
  assumes "safe_tokens T" "brace_free_tokens T"
  shows "list_all wf_segment segs \<Longrightarrow>
   convert_placeholders
     (concat (map escape_char (concat (map (resolve_segment False T) segs))) @ s)
   = concat (map escape_char (concat (map (resolve_segment True T) segs)))
     @ convert_placeholders s"
proof (induction segs)
  case Nil
  then show ?case by simp
next
  case (Cons sg segs)
  then have wf: "wf_segment sg" and rest: "list_all wf_segment segs" by simp_all
  have "convert_placeholders
          (concat (map escape_char (resolve_segment False T sg))
           @ (concat (map escape_char (concat (map (resolve_segment False T) segs))) @ s))
        = concat (map escape_char (resolve_segment True T sg))
          @ convert_placeholders
              (concat (map escape_char (concat (map (resolve_segment False T) segs))) @ s)"
    by (rule convert_resolved_segment[OF assms wf])
  then show ?case using Cons.IH[OF rest] by simp
qed

lemma convert_quote_resolved:
  assumes "safe_tokens T" "brace_free_tokens T" "list_all wf_segment segs"
  shows "convert_placeholders (quote (concat (map (resolve_segment False T) segs)) @ rest)
           = quote (concat (map (resolve_segment True T) segs)) @ convert_placeholders rest"
proof -
  have a: "convert_placeholders (CHR 0x22 # x) = CHR 0x22 # convert_placeholders x" for x
    using convert_no_brace[of "[CHR 0x22]" x] by simp
  show ?thesis
    unfolding quote_def
    using convert_resolved_segments[OF assms(1,2,3), of "CHR 0x22 # rest"]
    by (simp add: a)
qed

lemma convert_quote_key:
  assumes "brace_free k"
  shows "convert_placeholders (quote k @ rest) = quote k @ convert_placeholders rest"
proof -
  have "CHR ''{'' \<notin> set (quote k)"
    using escape_no_brace(1)[of k] assms by (simp add: quote_def brace_free_def)
  then show ?thesis by (rule convert_no_brace)
qed


lemma substitute_text_no_dollar:
  "safe_tokens T \<Longrightarrow> CHR ''$'' \<notin> set a \<Longrightarrow>
   substitute_text T (a @ s) = a @ substitute_text T s"
proof (induction T arbitrary: s)
  case Nil
  then show ?case by (simp add: substitute_text_Nil)
next
  case (Cons e T)
  obtain k val where e: "e = (k, val)" by (cases e)
  from Cons.prems(1) e have s: "dollar_free val" "safe_tokens T"
    by (simp_all add: safe_tokens_Cons)
  show ?case
    unfolding e substitute_text_Cons replace_token_text[OF Cons.prems(2) s(1)]
    by (rule Cons.IH[OF s(2) Cons.prems(2)])
qed

lemma substitute_text_unresolved:
  assumes "safe_tokens T" "token_name n" "map_of T n = None"
  shows "substitute_text T (placeholder n @ s) = placeholder n @ substitute_text T s"
proof -
  from assms(3) have "n \<notin> fst ` set T" by (simp add: map_of_eq_None_iff)
  from substitute_text_around[OF assms(1,2) this, of "[]" s]
    substitute_text_dollar_free[of "[]" T]
  show ?thesis by (simp add: dollar_free_def)
qed

lemma substitute_text_resolved:
  "safe_tokens T \<Longrightarrow> token_name k \<Longrightarrow> map_of T k = Some val \<Longrightarrow>
   substitute_text T (placeholder k @ s) = val @ substitute_text T s"
proof (induction T arbitrary: s)
  case Nil
  then show ?case by simp
next
  case (Cons e T)
  obtain k' val' where e: "e = (k', val')" by (cases e)
  from Cons.prems(1) e have st: "token_name k'" "dollar_free val'" "safe_tokens T"
    by (simp_all add: safe_tokens_Cons)
  show ?case
  proof (cases "k' = k")
    case True
    with Cons.prems(3) e have v: "val' = val" by simp
    have "replace_token k val [] (placeholder k @ s) = val @ replace_token k val [] s"
      using replace_token_match[of k val "[]" s] st(2) v
        replace_token_before[of val k "placeholder k" s "[]"]
      by (simp add: expand_dollar_free)
    moreover have "substitute_text T (val @ replace_token k val [] s)
                     = val @ substitute_text T (replace_token k val [] s)"
      using st(2) v by (intro substitute_text_no_dollar[OF st(3)]) (simp add: dollar_free_def)
    ultimately show ?thesis
      unfolding e substitute_text_Cons using True v by simp
  next
    case False
    from Cons.prems(3) e False have m: "map_of T k = Some val" by simp
    have "replace_token k' val' [] (placeholder k @ s)
            = placeholder k @ replace_token k' val' [] s"
      using replace_token_skip[OF st(1) Cons.prems(2) False, of val' "[]" s]
        replace_token_before[OF st(2), of k' "placeholder k" s "[]"]
      by simp
    then show ?thesis
      unfolding e substitute_text_Cons
      using Cons.IH[OF st(3) Cons.prems(2) m] by simp
  qed
qed

lemma substitute_text_empty: "substitute_text T [] = []"
  by (rule substitute_text_dollar_free) (simp add: dollar_free_def)

lemma substitute_text_segment:
  assumes "safe_tokens T" "wf_segment sg"
  shows "substitute_text T (render_segment sg @ s)
           = resolve_segment False T sg @ substitute_text T s"
proof (cases sg)
  case (Lit lt)
  with assms(2) have "CHR ''$'' \<notin> set lt" by (simp add: dollar_free_def)
  from substitute_text_no_dollar[OF assms(1) this] Lit show ?thesis by simp
next
  case (Tok k)
  with assms(2) have tn: "token_name k" by simp
  show ?thesis
  proof (cases "map_of T k")
    case None
    from substitute_text_unresolved[OF assms(1) tn None] None Tok show ?thesis by simp
  next
    case (Some val)
    from substitute_text_resolved[OF assms(1) tn Some] Some Tok show ?thesis by simp
  qed
next
  case (Inp n)
  with assms(2) have "CHR ''$'' \<notin> set (''{{'' @ n @ ''}}'')" by (simp add: dollar_free_def)
  from substitute_text_no_dollar[OF assms(1) this] Inp show ?thesis by simp
qed

lemma substitute_text_segments:
  assumes "safe_tokens T"
  shows "list_all wf_segment segs \<Longrightarrow>
   substitute_text T (concat (map render_segment segs))
     = concat (map (resolve_segment False T) segs)"
proof (induction segs)
  case Nil
  then show ?case by (simp add: substitute_text_empty)
next
  case (Cons sg segs)
  then have "wf_segment sg" "list_all wf_segment segs" by simp_all
  with substitute_text_segment[OF assms this(1), of "concat (map render_segment segs)"]
    Cons.IH show ?case by simp
qed

lemma wf_elements_Cons: "wf_elements (x # xs) = (wf_json x \<and> wf_elements xs)"
  by (cases xs) simp_all

lemma wf_members_Cons: "wf_members ((k, v) # kvs) = (wf_json v \<and> wf_members kvs)"
proof (cases kvs)
  case Nil
  then show ?thesis by simp
next
  case (Cons m r)
  obtain mk mv where "m = (mk, mv)" by (cases m)
  with Cons show ?thesis by simp
qed

lemma all_keys_elements_Cons:
  "all_keys_elements p (x # xs) = (all_keys p x \<and> all_keys_elements p xs)"
  by (cases xs) simp_all

lemma all_keys_members_Cons:
  "all_keys_members p ((k, v) # kvs) = (p k \<and> all_keys p v \<and> all_keys_members p kvs)"
proof (cases kvs)
  case Nil
  then show ?thesis by simp
next
  case (Cons m r)
  obtain mk mv where "m = (mk, mv)" by (cases m)
  with Cons show ?thesis by simp
qed

lemma render_members_keys: "map fst (render_members kvs) = map fst kvs"
  by (induction kvs) auto

lemma resolve_members_keys: "map fst (resolve_members vs T kvs) = map fst kvs"
  by (induction kvs) auto

lemma wf_render_json:
  "wf_template t \<Longrightarrow> wf_json (render_json t) \<and> all_keys dollar_free (render_json t)"
  "wf_template_elements xs \<Longrightarrow>
     wf_elements (render_elements xs) \<and> all_keys_elements dollar_free (render_elements xs)"
  "wf_template_members kvs \<Longrightarrow>
     wf_members (render_members kvs) \<and> all_keys_members dollar_free (render_members kvs)"
  by (induction t and xs and kvs rule: render_json_render_elements_render_members.induct)
     (simp_all add: wf_elements_Cons wf_members_Cons all_keys_elements_Cons
        all_keys_members_Cons render_members_keys)

lemma wf_resolve_json:
  "wf_template t \<Longrightarrow> wf_json (resolve_json vs T t)"
  "wf_template_elements xs \<Longrightarrow> wf_elements (resolve_elements vs T xs)"
  "wf_template_members kvs \<Longrightarrow> wf_members (resolve_members vs T kvs)"
  by (induction t and xs and kvs rule: render_json_render_elements_render_members.induct)
     (simp_all add: wf_elements_Cons wf_members_Cons resolve_members_keys)

lemma map_strings_render:
  assumes "safe_tokens T"
  shows
  "wf_template t \<Longrightarrow>
     map_strings (substitute_text T) (render_json t) = resolve_json False T t"
  "wf_template_elements xs \<Longrightarrow>
     map_elements (substitute_text T) (render_elements xs) = resolve_elements False T xs"
  "wf_template_members kvs \<Longrightarrow>
     map_members (substitute_text T) (render_members kvs) = resolve_members False T kvs"
  by (induction t and xs and kvs rule: render_json_render_elements_render_members.induct)
     (simp_all add: map_elements_Cons map_members_Cons substitute_text_segments[OF assms])

lemma substituteTokens_template:
  assumes "safe_tokens T" "wf_template t"
  shows "substituteTokens (Some (render_json t)) T = Inr (resolve_json False T t)"
  using substituteTokens_strings[OF assms(1), of "render_json t"]
    wf_render_json(1)[OF assms(2)] map_strings_render(1)[OF assms]
  by simp

lemma stringify_elements_Cons_if:
  "stringify_elements (x # xs)
     = JSON_stringify x @ (if xs = [] then [] else CHR '','' # stringify_elements xs)"
  by (cases xs) simp_all

lemma stringify_members_Cons_if:
  "stringify_members ((k, v) # kvs)
     = quote k @ CHR '':'' # JSON_stringify v
       @ (if kvs = [] then [] else CHR '','' # stringify_members kvs)"
proof (cases kvs)
  case Nil
  then show ?thesis by simp
next
  case (Cons m r)
  obtain mk mv where "m = (mk, mv)" by (cases m)
  with Cons show ?thesis by simp
qed

lemma resolve_elements_Nil_iff: "(resolve_elements vs T xs = []) = (xs = [])"
  by (cases xs) simp_all

lemma resolve_members_Nil_iff: "(resolve_members vs T kvs = []) = (kvs = [])"
  by (cases kvs) auto

lemma convert_char:
  "c \<noteq> CHR ''{'' \<Longrightarrow> convert_placeholders (c # s) = c # convert_placeholders s"
  using convert_no_brace[of "[c]" s] by simp

lemma convert_text:
  "CHR ''{'' \<notin> set a \<Longrightarrow> convert_placeholders (a @ s) = a @ convert_placeholders s"
  by (rule convert_no_brace)

lemma num_chars_no_brace: "list_all is_num_char lit \<Longrightarrow> CHR ''{'' \<notin> set lit"
proof (induction lit)
  case Nil
  then show ?case by simp
next
  case (Cons c lit)
  moreover have "\<not> is_num_char (CHR ''{'')" by (simp add: is_num_char_def)
  ultimately show ?case by auto
qed

lemma stringify_members_head:
  "kvs \<noteq> [] \<Longrightarrow> \<exists>t. stringify_members (resolve_members vs T kvs) = CHR 0x22 # t"
proof (cases kvs)
  case Nil
  then show "kvs \<noteq> [] \<Longrightarrow> ?thesis" by simp
next
  case (Cons m r)
  obtain k v where "m = (k, v)" by (cases m)
  with Cons show ?thesis by (simp add: stringify_members_Cons_if quote_def)
qed

lemma convert_stringify:
  assumes "safe_tokens T" "brace_free_tokens T"
  shows
  "wf_template t \<Longrightarrow>
     convert_placeholders (JSON_stringify (resolve_json False T t) @ rest)
       = JSON_stringify (resolve_json True T t) @ convert_placeholders rest"
  "wf_template_elements xs \<Longrightarrow>
     convert_placeholders (stringify_elements (resolve_elements False T xs) @ rest)
       = stringify_elements (resolve_elements True T xs) @ convert_placeholders rest"
  "wf_template_members kvs \<Longrightarrow>
     convert_placeholders (stringify_members (resolve_members False T kvs) @ rest)
       = stringify_members (resolve_members True T kvs) @ convert_placeholders rest"
proof (induction t and xs and kvs arbitrary: rest and rest and rest
    rule: render_json_render_elements_render_members.induct)
  case 1
  show ?case using convert_text[of "''null''" rest] by simp
next
  case (2 b)
  show ?case
    using convert_text[of "''true''" rest] convert_text[of "''false''" rest] by simp
next
  case (3 lit)
  then have "CHR ''{'' \<notin> set lit" by (simp add: num_chars_no_brace)
  from convert_text[OF this] show ?case by simp
next
  case (4 segs)
  then have "list_all wf_segment segs" by simp
  from convert_quote_resolved[OF assms this] show ?case by simp
next
  case (5 xs)
  have "convert_placeholders
          (CHR ''['' # stringify_elements (resolve_elements False T xs) @ CHR '']'' # rest)
        = CHR ''['' # convert_placeholders
            (stringify_elements (resolve_elements False T xs) @ CHR '']'' # rest)"
    by (rule convert_char) simp
  also have "convert_placeholders
            (stringify_elements (resolve_elements False T xs) @ CHR '']'' # rest)
        = stringify_elements (resolve_elements True T xs)
          @ convert_placeholders (CHR '']'' # rest)"
    using "5.IH" "5.prems" by simp
  also have "convert_placeholders (CHR '']'' # rest) = CHR '']'' # convert_placeholders rest"
    by (rule convert_char) simp
  finally show ?case by simp
next
  case (6 kvs)
  show ?case
  proof (cases "kvs = []")
    case True
    have "convert_placeholders (CHR ''{'' # CHR ''}'' # rest)
            = CHR ''{'' # convert_placeholders (CHR ''}'' # rest)"
      by (rule convert_single_brace) simp
    also have "convert_placeholders (CHR ''}'' # rest) = CHR ''}'' # convert_placeholders rest"
      by (rule convert_char) simp
    finally show ?thesis using True by simp
  next
    case False
    from stringify_members_head[OF False, of False T] obtain t where
      hd: "stringify_members (resolve_members False T kvs) = CHR 0x22 # t" ..
    have "convert_placeholders
            (CHR ''{'' # CHR 0x22 # (t @ CHR ''}'' # rest))
          = CHR ''{'' # convert_placeholders (CHR 0x22 # (t @ CHR ''}'' # rest))"
      by (rule convert_single_brace) simp
    then have "convert_placeholders
            (CHR ''{'' # stringify_members (resolve_members False T kvs) @ CHR ''}'' # rest)
          = CHR ''{'' # convert_placeholders
              (stringify_members (resolve_members False T kvs) @ CHR ''}'' # rest)"
      by (simp add: hd)
    also have "convert_placeholders
              (stringify_members (resolve_members False T kvs) @ CHR ''}'' # rest)
          = stringify_members (resolve_members True T kvs)
            @ convert_placeholders (CHR ''}'' # rest)"
      using "6.IH" "6.prems" by simp
    also have "convert_placeholders (CHR ''}'' # rest) = CHR ''}'' # convert_placeholders rest"
      by (rule convert_char) simp
    finally show ?thesis by simp
  qed
next
  case 7
  show ?case by simp
next
  case (8 x r)
  from "8.prems" have wfx: "wf_template x" and wfr: "wf_template_elements r" by simp_all
  show ?case
  proof (cases "r = []")
    case True
    with "8.IH"(1)[OF wfx] show ?thesis by simp
  next
    case False
    have "convert_placeholders
            (JSON_stringify (resolve_json False T x)
             @ CHR '','' # stringify_elements (resolve_elements False T r) @ rest)
          = JSON_stringify (resolve_json True T x)
            @ convert_placeholders
                (CHR '','' # stringify_elements (resolve_elements False T r) @ rest)"
      by (rule "8.IH"(1)[OF wfx])
    also have "convert_placeholders
                (CHR '','' # stringify_elements (resolve_elements False T r) @ rest)
          = CHR '','' # convert_placeholders
                (stringify_elements (resolve_elements False T r) @ rest)"
      by (rule convert_char) simp
    also have "convert_placeholders (stringify_elements (resolve_elements False T r) @ rest)
          = stringify_elements (resolve_elements True T r) @ convert_placeholders rest"
      by (rule "8.IH"(2)[OF wfr])
    finally show ?thesis
      using False by (simp add: stringify_elements_Cons_if resolve_elements_Nil_iff)
  qed
next
  case 9
  show ?case by simp
next
  case (10 k v r)
  from "10.prems" have bk: "brace_free k" and wfv: "wf_template v"
    and wfr: "wf_template_members r" by simp_all
  have key: "convert_placeholders (quote k @ CHR '':'' # y)
               = quote k @ CHR '':'' # convert_placeholders y" for y
    using convert_quote_key[OF bk, of "CHR '':'' # y"] convert_char[of "CHR '':''" y]
    by simp
  show ?case
  proof (cases "r = []")
    case True
    have "convert_placeholders
            (quote k @ CHR '':'' # (JSON_stringify (resolve_json False T v) @ rest))
          = quote k @ CHR '':'' # convert_placeholders
              (JSON_stringify (resolve_json False T v) @ rest)"
      by (rule key)
    also have "convert_placeholders (JSON_stringify (resolve_json False T v) @ rest)
          = JSON_stringify (resolve_json True T v) @ convert_placeholders rest"
      by (rule "10.IH"(1)[OF wfv])
    finally show ?thesis using True by simp
  next
    case False
    have "convert_placeholders
            (quote k @ CHR '':'' # (JSON_stringify (resolve_json False T v)
               @ CHR '','' # stringify_members (resolve_members False T r) @ rest))
          = quote k @ CHR '':'' # convert_placeholders
              (JSON_stringify (resolve_json False T v)
               @ CHR '','' # stringify_members (resolve_members False T r) @ rest)"
      by (rule key)
    also have "convert_placeholders
              (JSON_stringify (resolve_json False T v)
               @ CHR '','' # stringify_members (resolve_members False T r) @ rest)
          = JSON_stringify (resolve_json True T v)
            @ convert_placeholders
                (CHR '','' # stringify_members (resolve_members False T r) @ rest)"
      by (rule "10.IH"(1)[OF wfv])
    also have "convert_placeholders
                (CHR '','' # stringify_members (resolve_members False T r) @ rest)
          = CHR '','' # convert_placeholders
                (stringify_members (resolve_members False T r) @ rest)"
      by (rule convert_char) simp
    also have "convert_placeholders (stringify_members (resolve_members False T r) @ rest)
          = stringify_members (resolve_members True T r) @ convert_placeholders rest"
      by (rule "10.IH"(2)[OF wfr])
    finally show ?thesis
      using False by (simp add: stringify_members_Cons_if resolve_members_Nil_iff)
  qed
qed

lemma convert_placeholders_Nil: "convert_placeholders [] = []"
  by (simp add: convert_placeholders.simps)

text \<open>
  Claim C9 as stated fails. The rewrite runs on the text that the token substitution has
  produced, so a \<^verbatim>\<open>{{X}}\<close> that arrives in a token value is rewritten too: the fragment
  \<^verbatim>\<open>"${A}"\<close> holds no \<^verbatim>\<open>{{NAME}}\<close> placeholder (the rewrite leaves its text as it is), the
  substitution alone gives \<^verbatim>\<open>"{{X}}"\<close> for the token set \<^verbatim>\<open>{A: "{{X}}"}\<close>, and the pipeline
  returns \<^verbatim>\<open>"${input:X}"\<close>.
\<close>

theorem vscode_pipeline_counterexample:
  "vscode_server_config (JStr ''${A}'') [(''A'', ''{{X}}'')] = Inr (JStr ''${input:X}'')
   \<and> substituteTokens (Some (JStr ''${A}'')) [(''A'', ''{{X}}'')] = Inr (JStr ''{{X}}'')
   \<and> convert_placeholders (JSON_stringify (JStr ''${A}'')) = JSON_stringify (JStr ''${A}'')"
  by code_simp

text \<open>
  Claim C9, amended. Let the fragment be JSON-shaped, with distinct keys free of dollar
  signs and braces, and with strings made of literal text without dollar sign or brace,
  placeholders \<^verbatim>\<open>${NAME}\<close> (NAME of letters, digits, underscores) and placeholders
  \<^verbatim>\<open>{{NAME}}\<close> (NAME not empty, without dollar sign or brace); let the token names be made
  of letters, digits and underscores and the token values hold no dollar sign, brace,
  double quote, backslash or control character. Then the pipeline returns the fragment in
  which every \<^verbatim>\<open>${NAME}\<close> with a token is replaced by the value of the token, every other
  \<^verbatim>\<open>${NAME}\<close> is kept, every \<^verbatim>\<open>{{NAME}}\<close> is rewritten to \<^verbatim>\<open>${input:NAME}\<close>, and nothing else
  changes.
\<close>

theorem vscode_pipeline_independent:
  assumes "safe_tokens T" and "brace_free_tokens T" and "wf_template t"
  shows "vscode_server_config (render_json t) T = Inr (resolve_json True T t)"
proof -
  have "convert_placeholders (JSON_stringify (resolve_json False T t) @ [])
          = JSON_stringify (resolve_json True T t) @ convert_placeholders []"
    by (rule convert_stringify(1)[OF assms])
  then have "convert_placeholders (JSON_stringify (resolve_json False T t))
          = JSON_stringify (resolve_json True T t)"
    by (simp add: convert_placeholders_Nil)
  moreover have "JSON_parse (JSON_stringify (resolve_json True T t))
                   = Some (resolve_json True T t)"
    by (rule JSON_parse_stringify[OF wf_resolve_json(1)[OF assms(3)]])
  ultimately show ?thesis
    using substituteTokens_template[OF assms(1,3)]
    by (simp add: vscode_server_config_def)
qed

text \<open>
  The amended claim at the fragment \<^verbatim>\<open>{"env": "Bearer ${A} {{B}} ${C}"}\<close> with the token set
  \<^verbatim>\<open>{A: "x"}\<close>.
\<close>

theorem vscode_pipeline_independent_witness:
  "safe_tokens [(''A'', ''x'')] \<and> brace_free_tokens [(''A'', ''x'')]
   \<and> wf_template (TObj [(''env'', TStr [Lit ''Bearer '', Tok ''A'', Lit '' '', Inp ''B'',
                                         Lit '' '', Tok ''C''])])
   \<and> render_json (TObj [(''env'', TStr [Lit ''Bearer '', Tok ''A'', Lit '' '', Inp ''B'',
                                         Lit '' '', Tok ''C''])])
       = JObj [(''env'', JStr ''Bearer ${A} {{B}} ${C}'')]
   \<and> vscode_server_config (JObj [(''env'', JStr ''Bearer ${A} {{B}} ${C}'')]) [(''A'', ''x'')]
       = Inr (JObj [(''env'', JStr ''Bearer x ${input:B} ${C}'')])"
proof -
  have h1: "safe_tokens [(''A'', ''x'')]" by code_simp
  have h2: "brace_free_tokens [(''A'', ''x'')]" by code_simp
  have h3: "wf_template (TObj [(''env'', TStr [Lit ''Bearer '', Tok ''A'', Lit '' '', Inp ''B'',
                                         Lit '' '', Tok ''C''])])"
    by code_simp
  have r: "render_json (TObj [(''env'', TStr [Lit ''Bearer '', Tok ''A'', Lit '' '', Inp ''B'',
                                         Lit '' '', Tok ''C''])])
       = JObj [(''env'', JStr ''Bearer ${A} {{B}} ${C}'')]"
    by code_simp
  have e: "resolve_json True [(''A'', ''x'')]
        (TObj [(''env'', TStr [Lit ''Bearer '', Tok ''A'', Lit '' '', Inp ''B'',
                               Lit '' '', Tok ''C''])])
       = JObj [(''env'', JStr ''Bearer x ${input:B} ${C}'')]"
    by code_simp
  from vscode_pipeline_independent[OF h1 h2 h3] r e
  have "vscode_server_config (JObj [(''env'', JStr ''Bearer ${A} {{B}} ${C}'')]) [(''A'', ''x'')]
       = Inr (JObj [(''env'', JStr ''Bearer x ${input:B} ${C}'')])"
    by simp
  with h1 h2 h3 r show ?thesis by blast
qed

section \<open>Merging into an existing configuration file\<close>

lemma insert_index_keys: "fst ` set (insert_index i k v m) = insert k (fst ` set m)"
proof (induction m)
  case Nil
  then show ?case by simp
next
  case (Cons a m)
  obtain k' v' where a: "a = (k', v')" by (cases a)
  show ?case
  proof (cases "array_index k'")
    case None
    then show ?thesis using a by auto
  next
    case (Some j)
    then show ?thesis using a Cons.IH by (cases "j < i") auto
  qed
qed

lemma distinct_insert_index:
  "k \<notin> fst ` set m \<Longrightarrow> distinct (map fst m) \<Longrightarrow> distinct (map fst (insert_index i k v m))"
proof (induction m)
  case Nil
  then show ?case by simp
next
  case (Cons a m)
  obtain k' v' where a: "a = (k', v')" by (cases a)
  from Cons.prems a have fresh: "k \<notin> fst ` set m" and ne: "k' \<noteq> k"
    and d: "distinct (map fst m)" and k': "k' \<notin> fst ` set m" by auto
  have keys: "fst ` set (insert_index i k v m) = insert k (fst ` set m)"
    by (rule insert_index_keys)
  show ?case
  proof (cases "array_index k'")
    case None
    then show ?thesis using a Cons.prems by auto
  next
    case (Some j)
    show ?thesis
    proof (cases "j < i")
      case True
      with Some a Cons.IH[OF fresh d] keys k' ne show ?thesis by simp
    next
      case False
      with Some a Cons.prems show ?thesis by auto
    qed
  qed
qed

lemma distinct_define_prop:
  "distinct (map fst m) \<Longrightarrow> distinct (map fst (define_prop k v m))"
  by (auto simp: define_prop_def distinct_update distinct_insert_index split: option.splits)

lemma distinct_read_members:
  "distinct (map fst acc) \<Longrightarrow> distinct (map fst (read_members kvs acc))"
proof (induction kvs arbitrary: acc)
  case Nil
  then show ?case by simp
next
  case (Cons a kvs)
  obtain k v where a: "a = (k, v)" by (cases a)
  from Cons.IH[OF distinct_define_prop[OF Cons.prems]] a show ?case by simp
qed

lemma map_of_read_members:
  "distinct (map fst kvs) \<Longrightarrow>
   map_of (read_members kvs acc) k
     = (case map_of kvs k of Some v \<Rightarrow> Some (read_json v) | None \<Rightarrow> map_of acc k)"
proof (induction kvs arbitrary: acc)
  case Nil
  then show ?case by simp
next
  case (Cons a kvs)
  obtain k' v' where a: "a = (k', v')" by (cases a)
  from Cons.prems a have d: "distinct (map fst kvs)" and fresh: "map_of kvs k' = None"
    by (auto simp: map_of_eq_None_iff)
  show ?case
    using Cons.IH[OF d, of "define_prop k' (read_json v') acc"] a fresh
    by (auto simp: map_of_define_prop split: option.splits)
qed

lemma map_of_write_members:
  "map_of (write_members m) k = map_option write_json (map_of m k)"
  by (induction m) auto

lemma map_of_round_trip:
  "distinct (map fst kvs) \<Longrightarrow>
   map_of (write_members (read_members kvs [])) k = map_option round_trip (map_of kvs k)"
  by (simp add: map_of_write_members map_of_read_members round_trip_def split: option.splits)

lemma read_members_append:
  "distinct (map fst (acc @ kvs)) \<Longrightarrow> list_all (\<lambda>(k, v). array_index k = None) kvs \<Longrightarrow>
   read_members kvs acc = acc @ map (\<lambda>(k, v). (k, read_json v)) kvs"
proof (induction kvs arbitrary: acc)
  case Nil
  then show ?case by simp
next
  case (Cons a kvs)
  obtain k v where a: "a = (k, v)" by (cases a)
  from Cons.prems a have fresh: "k \<notin> fst ` set acc" and idx: "array_index k = None"
    and rest: "list_all (\<lambda>(k, v). array_index k = None) kvs"
    and d: "distinct (map fst ((acc @ [(k, read_json v)]) @ kvs))"
    by auto
  from Cons.IH[OF d rest] define_prop_last[OF fresh idx] a show ?case by simp
qed

lemma steady_members_keys:
  "steady_members kvs \<Longrightarrow> list_all (\<lambda>(k, v). array_index k = None) kvs"
  by (induction kvs) auto

lemma steady_fixed:
  "steady v \<Longrightarrow> read_json v = v \<and> write_json v = v"
  "steady_elements xs \<Longrightarrow> read_elements xs = xs \<and> write_elements xs = xs"
  "steady_members kvs \<Longrightarrow>
     map (\<lambda>(k, v). (k, read_json v)) kvs = kvs \<and> write_members kvs = kvs"
proof (induction v and xs and kvs rule: steady_steady_elements_steady_members.induct)
  case (3 lit)
  then show ?case by (simp add: read_number_def write_number_def)
next
  case (6 kvs)
  then have d: "distinct (map fst ([] @ kvs))" and s: "steady_members kvs" by simp_all
  from read_members_append[OF d steady_members_keys[OF s]] 6 show ?case by simp
qed simp_all

lemma steady_round_trip: "steady v \<Longrightarrow> round_trip v = v"
  by (simp add: round_trip_def steady_fixed(1))

lemma assign_entry_frame:
  "assign_entry section n v = Inr section' \<Longrightarrow> m \<noteq> n \<Longrightarrow>
   map_of (own_fields section') m = map_of (own_fields section) m"
proof (cases "section")
  case (JObj entries)
  assume "assign_entry section n v = Inr section'" "m \<noteq> n"
  with JObj show ?thesis
    by (auto simp: assign_entry_def own_fields_def map_of_set_prop_other)
next
  case (JArr xs)
  assume "assign_entry section n v = Inr section'"
  with JArr have "\<exists>ys. section' = JArr ys"
    by (auto simp: assign_entry_def set_length_def split: option.splits if_splits sum.splits)
  with JArr show ?thesis by (auto simp: own_fields_def)
qed (auto simp: assign_entry_def)

lemma assign_entry_object:
  "assign_entry (JObj sec) n v = Inr section' \<Longrightarrow> \<exists>sec'. section' = JObj sec'"
  by (auto simp: assign_entry_def)

lemma add_servers_desktop_frame:
  "add_servers_desktop reg this folder names section = Inr section' \<Longrightarrow> m \<notin> set names \<Longrightarrow>
   map_of (own_fields section') m = map_of (own_fields section) m"
proof (induction names arbitrary: "section")
  case Nil
  then show ?case by simp
next
  case (Cons n names)
  from Cons.prems(1) obtain fragment serverConfig mid where
    mid: "assign_entry section n serverConfig = Inr mid"
    and rest: "add_servers_desktop reg this folder names mid = Inr section'"
    by (auto split: sum.splits)
  from Cons.prems(2) have "m \<noteq> n" "m \<notin> set names" by auto
  with Cons.IH[OF rest] assign_entry_frame[OF mid] show ?case by simp
qed

lemma add_servers_desktop_object:
  "add_servers_desktop reg this folder names (JObj sec) = Inr section' \<Longrightarrow>
   \<exists>sec'. section' = JObj sec'"
proof (induction names arbitrary: sec)
  case Nil
  then show ?case by auto
next
  case (Cons n names)
  from Cons.prems obtain serverConfig mid where
    mid: "assign_entry (JObj sec) n serverConfig = Inr mid"
    and rest: "add_servers_desktop reg this folder names mid = Inr section'"
    by (auto split: sum.splits)
  from assign_entry_object[OF mid] obtain sec1 where "mid = JObj sec1" ..
  with Cons.IH rest show ?case by simp
qed

lemma add_servers_gemini_frame:
  "add_servers_gemini reg this folder names section = Inr section' \<Longrightarrow> m \<notin> set names \<Longrightarrow>
   map_of (own_fields section') m = map_of (own_fields section) m"
proof (induction names arbitrary: "section")
  case Nil
  then show ?case by simp
next
  case (Cons n names)
  from Cons.prems(2) have m: "m \<noteq> n" "m \<notin> set names" by auto
  consider (skip) "add_servers_gemini reg this folder names section = Inr section'"
    | (assign) serverConfig mid where "assign_entry section n serverConfig = Inr mid"
        "add_servers_gemini reg this folder names mid = Inr section'"
    using Cons.prems(1) by (auto split: sum.splits if_splits)
  then show ?case
  proof cases
    case skip
    with Cons.IH m show ?thesis by simp
  next
    case assign
    with Cons.IH[OF assign(2)] assign_entry_frame[OF assign(1)] m show ?thesis by simp
  qed
qed

lemma add_servers_gemini_object:
  "add_servers_gemini reg this folder names (JObj sec) = Inr section' \<Longrightarrow>
   \<exists>sec'. section' = JObj sec'"
proof (induction names arbitrary: sec)
  case Nil
  then show ?case by auto
next
  case (Cons n names)
  consider (skip) "add_servers_gemini reg this folder names (JObj sec) = Inr section'"
    | (assign) serverConfig mid where "assign_entry (JObj sec) n serverConfig = Inr mid"
        "add_servers_gemini reg this folder names mid = Inr section'"
    using Cons.prems by (auto split: sum.splits if_splits)
  then show ?case
  proof cases
    case skip
    with Cons.IH show ?thesis by simp
  next
    case assign
    from assign_entry_object[OF assign(1)] obtain sec1 where "mid = JObj sec1" ..
    with Cons.IH assign(2) show ?thesis by simp
  qed
qed

lemma section_of_object:
  assumes "distinct (map fst kvs)" and "map_of kvs ''mcpServers'' = Some (JObj sec)"
  shows "section_or_empty (read_members kvs []) = JObj (read_members sec [])"
  using assms
  by (simp add: section_or_empty_def truthy_field_def map_of_read_members)

lemma merge_shape:
  assumes d: "distinct (map fst kvs)"
    and frame: "\<And>m. m \<notin> set names \<Longrightarrow>
          map_of (own_fields section) m
            = map_of (own_fields (section_or_empty (read_members kvs []))) m"
    and obj: "\<And>sec0. section_or_empty (read_members kvs []) = JObj sec0 \<Longrightarrow>
          \<exists>sec1. section = JObj sec1"
    and rest: "\<And>k. k \<noteq> ''mcpServers'' \<Longrightarrow> map_of cfg k = map_of (read_members kvs []) k"
    and upd: "map_of cfg ''mcpServers'' = Some section"
  shows "(\<forall>k. k \<noteq> ''mcpServers'' \<longrightarrow>
            map_of (write_members cfg) k = map_option round_trip (map_of kvs k))
       \<and> (\<forall>k v. k \<noteq> ''mcpServers'' \<and> map_of kvs k = Some v \<and> steady v \<longrightarrow>
            map_of (write_members cfg) k = Some v)
       \<and> (\<forall>sec. map_of kvs ''mcpServers'' = Some (JObj sec) \<and> distinct (map fst sec) \<longrightarrow>
            (\<exists>sec'. map_of (write_members cfg) ''mcpServers'' = Some (JObj sec')
               \<and> (\<forall>n. n \<notin> set names \<longrightarrow>
                     map_of sec' n = map_option round_trip (map_of sec n))
               \<and> (\<forall>n v. n \<notin> set names \<and> map_of sec n = Some v \<and> steady v \<longrightarrow>
                     map_of sec' n = Some v)))"
proof (intro conjI allI impI)
  fix k
  assume k: "k \<noteq> ''mcpServers''"
  have "map_of (write_members cfg) k = map_option write_json (map_of (read_members kvs []) k)"
    by (simp add: map_of_write_members rest[OF k])
  also have "\<dots> = map_option round_trip (map_of kvs k)"
    using map_of_round_trip[OF d, of k] by (simp add: map_of_write_members)
  finally show "map_of (write_members cfg) k = map_option round_trip (map_of kvs k)" .
next
  fix k v
  assume a: "k \<noteq> ''mcpServers'' \<and> map_of kvs k = Some v \<and> steady v"
  then have k: "k \<noteq> ''mcpServers''" by simp
  have "map_of (write_members cfg) k = map_option write_json (map_of (read_members kvs []) k)"
    by (simp add: map_of_write_members rest[OF k])
  also have "\<dots> = map_option round_trip (map_of kvs k)"
    using map_of_round_trip[OF d, of k] by (simp add: map_of_write_members)
  finally show "map_of (write_members cfg) k = Some v"
    using a by (simp add: steady_round_trip)
next
  fix sec
  assume a: "map_of kvs ''mcpServers'' = Some (JObj sec) \<and> distinct (map fst sec)"
  then have s: "map_of kvs ''mcpServers'' = Some (JObj sec)" and ds: "distinct (map fst sec)"
    by simp_all
  have s0: "section_or_empty (read_members kvs []) = JObj (read_members sec [])"
    by (rule section_of_object[OF d s])
  from obj[OF s0] obtain sec1 where sec1: "section = JObj sec1" ..
  have fr: "map_of sec1 n = map_of (read_members sec []) n" if "n \<notin> set names" for n
    using frame[OF that] by (simp add: sec1 s0 own_fields_def)
  have rt: "map_of (write_members sec1) n = map_option round_trip (map_of sec n)"
    if "n \<notin> set names" for n
  proof -
    have "map_of (write_members sec1) n = map_option write_json (map_of (read_members sec []) n)"
      by (simp add: map_of_write_members fr[OF that])
    also have "\<dots> = map_option round_trip (map_of sec n)"
      using map_of_round_trip[OF ds, of n] by (simp add: map_of_write_members)
    finally show ?thesis .
  qed
  have w: "map_of (write_members cfg) ''mcpServers'' = Some (JObj (write_members sec1))"
    by (simp add: map_of_write_members upd sec1)
  have p1: "\<forall>n. n \<notin> set names \<longrightarrow>
              map_of (write_members sec1) n = map_option round_trip (map_of sec n)"
    using rt by blast
  have p2: "\<forall>n v. n \<notin> set names \<and> map_of sec n = Some v \<and> steady v \<longrightarrow>
              map_of (write_members sec1) n = Some v"
    using rt by (auto simp: steady_round_trip)
  show "\<exists>sec'. map_of (write_members cfg) ''mcpServers'' = Some (JObj sec')
               \<and> (\<forall>n. n \<notin> set names \<longrightarrow>
                     map_of sec' n = map_option round_trip (map_of sec n))
               \<and> (\<forall>n v. n \<notin> set names \<and> map_of sec n = Some v \<and> steady v \<longrightarrow>
                     map_of sec' n = Some v)"
    using w p1 p2 by blast
qed

lemma setupGeminiCLI_written:
  assumes "setupGeminiCLI reg this (Existing (JObj kvs)) folder = (True, Some written)"
  shows "\<exists>section.
           add_servers_gemini reg this folder (selectedServers this)
               (section_or_empty (read_members kvs [])) = Inr section
         \<and> written = JObj (write_members
               (AList.update ''mcpServers'' section (read_members kvs [])))"
  using assms by (auto simp: setupGeminiCLI_def split: sum.splits if_splits)

lemma setupClaudeDesktop_written:
  assumes "setupClaudeDesktop reg this os (Existing (JObj kvs)) folder = (True, Some written)"
  shows "\<exists>section.
           add_servers_desktop reg this folder (selectedServers this)
               (section_or_empty (read_members kvs [])) = Inr section
         \<and> written = JObj (write_members
               (AList.update ''mcpServers'' section
                  (AList.update ''mcpServers'' (section_or_empty (read_members kvs []))
                     (read_members kvs []))))"
proof -
  have "distinct (map fst ([] @ read_members kvs []))"
    using distinct_read_members[of "[]" kvs] by simp
  then have sp: "spread_value (JObj (read_members kvs [])) = read_members kvs []"
    using spread_append_distinct[of "[]" "read_members kvs []"] by (simp add: spread_value_def)
  show ?thesis
    using assms
    by (auto simp: setupClaudeDesktop_def sp own_fields_def Let_def
        split: if_splits sum.splits)
qed

text \<open>
  Claim C5 as stated fails. The file is read into JavaScript values and written anew, so
  a number comes back as the shortest literal of the double it was read as: the top-level
  \<^verbatim>\<open>"id": 12345678901234567890\<close> is written as \<^verbatim>\<open>12345678901234567000\<close>, and a
  \<^verbatim>\<open>1.50\<close> as \<^verbatim>\<open>1.5\<close>, at the top level and in an entry of \<^verbatim>\<open>mcpServers\<close> that is not
  selected.
\<close>

theorem merge_preserves_config_counterexample:
  "setupGeminiCLI mcpServers
       \<lparr>tokens = [], selectedServers = [''linear''], selectedClients = [''gemini''],
        dryRun = False\<rparr>
       (Existing (JObj
         [(''id'', JNum ''12345678901234567890''),
          (''mcpServers'', JObj [(''other'', JObj [(''timeout'', JNum ''1.50'')])])]))
       ''/tmp''
     = (True, Some (JObj
         [(''id'', JNum ''12345678901234567000''),
          (''mcpServers'', JObj
             [(''other'', JObj [(''timeout'', JNum ''1.5'')]),
              (''linear'', JObj [(''httpUrl'', JStr ''https://mcp.linear.app/sse'')])])]))
   \<and> setupClaudeDesktop mcpServers
       \<lparr>tokens = [], selectedServers = [''linear''], selectedClients = [''claudeDesktop''],
        dryRun = False\<rparr>
       Linux
       (Existing (JObj [(''scale'', JNum ''1.50''), (''mcpServers'', JObj [])]))
       ''/tmp''
     = (True, Some (JObj
         [(''scale'', JNum ''1.5''),
          (''mcpServers'', JObj
             [(''linear'', JObj [(''type'', JStr ''sse''),
                                (''url'', JStr ''https://mcp.linear.app/sse'')])])]))"
  by code_simp

text \<open>
  Claim C5, amended. When \<^verbatim>\<open>setupClaudeDesktop\<close> or \<^verbatim>\<open>setupGeminiCLI\<close> writes into an
  existing JSON config file that is an object with distinct keys, the file written is an
  object in which every key other than \<^verbatim>\<open>mcpServers\<close> has what reading and writing make
  of its value: the value itself when its numbers are in the form \<^verbatim>\<open>JSON.stringify\<close>
  writes and the keys of its objects are distinct and no array indices, and otherwise the
  value with each number as the shortest literal of the double it denotes (\<^verbatim>\<open>null\<close> for
  an infinite one) and with the members of its objects in JavaScript's key order. When
  \<^verbatim>\<open>mcpServers\<close> is an object with distinct keys in the file, it is one in the file written,
  and each of its entries whose key is not a selected server is kept in the same sense:
  only the entries of the selected servers are added or overwritten.
\<close>

theorem merge_preserves_config:
  assumes "distinct (map fst kvs)"
  shows "(setupClaudeDesktop reg this os (Existing (JObj kvs)) folder = (True, Some written)
            \<longrightarrow> (\<exists>out.
                  written = JObj out
                \<and> (\<forall>k. k \<noteq> ''mcpServers'' \<longrightarrow>
                      map_of out k = map_option round_trip (map_of kvs k))
                \<and> (\<forall>k v. k \<noteq> ''mcpServers'' \<and> map_of kvs k = Some v \<and> steady v \<longrightarrow>
                      map_of out k = Some v)
                \<and> (\<forall>sec. map_of kvs ''mcpServers'' = Some (JObj sec)
                          \<and> distinct (map fst sec) \<longrightarrow>
                      (\<exists>sec'. map_of out ''mcpServers'' = Some (JObj sec')
                         \<and> (\<forall>n. n \<notin> set (selectedServers this) \<longrightarrow>
                               map_of sec' n = map_option round_trip (map_of sec n))
                         \<and> (\<forall>n v. n \<notin> set (selectedServers this) \<and> map_of sec n = Some v
                                  \<and> steady v \<longrightarrow>
                               map_of sec' n = Some v)))))
       \<and> (setupGeminiCLI reg this (Existing (JObj kvs)) folder = (True, Some written)
            \<longrightarrow> (\<exists>out.
                  written = JObj out
                \<and> (\<forall>k. k \<noteq> ''mcpServers'' \<longrightarrow>
                      map_of out k = map_option round_trip (map_of kvs k))
                \<and> (\<forall>k v. k \<noteq> ''mcpServers'' \<and> map_of kvs k = Some v \<and> steady v \<longrightarrow>
                      map_of out k = Some v)
                \<and> (\<forall>sec. map_of kvs ''mcpServers'' = Some (JObj sec)
                          \<and> distinct (map fst sec) \<longrightarrow>
                      (\<exists>sec'. map_of out ''mcpServers'' = Some (JObj sec')
                         \<and> (\<forall>n. n \<notin> set (selectedServers this) \<longrightarrow>
                               map_of sec' n = map_option round_trip (map_of sec n))
                         \<and> (\<forall>n v. n \<notin> set (selectedServers this) \<and> map_of sec n = Some v
                                  \<and> steady v \<longrightarrow>
                               map_of sec' n = Some v)))))"
proof (intro conjI impI)
  assume run: "setupClaudeDesktop reg this os (Existing (JObj kvs)) folder = (True, Some written)"
  from setupClaudeDesktop_written[OF run] obtain filled where
    loop: "add_servers_desktop reg this folder (selectedServers this)
             (section_or_empty (read_members kvs [])) = Inr filled"
    and w: "written = JObj (write_members
               (AList.update ''mcpServers'' filled
                  (AList.update ''mcpServers'' (section_or_empty (read_members kvs []))
                     (read_members kvs []))))"
    by blast
  let ?cfg = "AList.update ''mcpServers'' filled
                (AList.update ''mcpServers'' (section_or_empty (read_members kvs []))
                   (read_members kvs []))"
  have shape: "(\<forall>k. k \<noteq> ''mcpServers'' \<longrightarrow>
            map_of (write_members ?cfg) k = map_option round_trip (map_of kvs k))
       \<and> (\<forall>k v. k \<noteq> ''mcpServers'' \<and> map_of kvs k = Some v \<and> steady v \<longrightarrow>
            map_of (write_members ?cfg) k = Some v)
       \<and> (\<forall>sec. map_of kvs ''mcpServers'' = Some (JObj sec) \<and> distinct (map fst sec) \<longrightarrow>
            (\<exists>sec'. map_of (write_members ?cfg) ''mcpServers'' = Some (JObj sec')
               \<and> (\<forall>n. n \<notin> set (selectedServers this) \<longrightarrow>
                     map_of sec' n = map_option round_trip (map_of sec n))
               \<and> (\<forall>n v. n \<notin> set (selectedServers this) \<and> map_of sec n = Some v
                        \<and> steady v \<longrightarrow>
                     map_of sec' n = Some v)))"
  proof (rule merge_shape[OF assms])
    fix m assume "m \<notin> set (selectedServers this)"
    then show "map_of (own_fields filled) m
                 = map_of (own_fields (section_or_empty (read_members kvs []))) m"
      by (rule add_servers_desktop_frame[OF loop])
  next
    fix sec0 assume "section_or_empty (read_members kvs []) = JObj sec0"
    with loop show "\<exists>sec1. filled = JObj sec1"
      using add_servers_desktop_object by simp
  next
    fix k :: string assume "k \<noteq> ''mcpServers''"
    then show "map_of ?cfg k = map_of (read_members kvs []) k" by (simp add: update_conv')
  next
    show "map_of ?cfg ''mcpServers'' = Some filled" by (simp add: update_conv')
  qed
  show "\<exists>out.
                  written = JObj out
                \<and> (\<forall>k. k \<noteq> ''mcpServers'' \<longrightarrow>
                      map_of out k = map_option round_trip (map_of kvs k))
                \<and> (\<forall>k v. k \<noteq> ''mcpServers'' \<and> map_of kvs k = Some v \<and> steady v \<longrightarrow>
                      map_of out k = Some v)
                \<and> (\<forall>sec. map_of kvs ''mcpServers'' = Some (JObj sec)
                          \<and> distinct (map fst sec) \<longrightarrow>
                      (\<exists>sec'. map_of out ''mcpServers'' = Some (JObj sec')
                         \<and> (\<forall>n. n \<notin> set (selectedServers this) \<longrightarrow>
                               map_of sec' n = map_option round_trip (map_of sec n))
                         \<and> (\<forall>n v. n \<notin> set (selectedServers this) \<and> map_of sec n = Some v
                                  \<and> steady v \<longrightarrow>
                               map_of sec' n = Some v)))"
    apply (rule exI[of _ "write_members ?cfg"])
    apply (rule conjI)
     apply (rule w)
    apply (rule shape)
    done
next
  assume run: "setupGeminiCLI reg this (Existing (JObj kvs)) folder = (True, Some written)"
  from setupGeminiCLI_written[OF run] obtain filled where
    loop: "add_servers_gemini reg this folder (selectedServers this)
             (section_or_empty (read_members kvs [])) = Inr filled"
    and w: "written = JObj (write_members
               (AList.update ''mcpServers'' filled (read_members kvs [])))"
    by blast
  let ?cfg = "AList.update ''mcpServers'' filled (read_members kvs [])"
  have shape: "(\<forall>k. k \<noteq> ''mcpServers'' \<longrightarrow>
            map_of (write_members ?cfg) k = map_option round_trip (map_of kvs k))
       \<and> (\<forall>k v. k \<noteq> ''mcpServers'' \<and> map_of kvs k = Some v \<and> steady v \<longrightarrow>
            map_of (write_members ?cfg) k = Some v)
       \<and> (\<forall>sec. map_of kvs ''mcpServers'' = Some (JObj sec) \<and> distinct (map fst sec) \<longrightarrow>
            (\<exists>sec'. map_of (write_members ?cfg) ''mcpServers'' = Some (JObj sec')
               \<and> (\<forall>n. n \<notin> set (selectedServers this) \<longrightarrow>
                     map_of sec' n = map_option round_trip (map_of sec n))
               \<and> (\<forall>n v. n \<notin> set (selectedServers this) \<and> map_of sec n = Some v
                        \<and> steady v \<longrightarrow>
                     map_of sec' n = Some v)))"
  proof (rule merge_shape[OF assms])
    fix m assume "m \<notin> set (selectedServers this)"
    then show "map_of (own_fields filled) m
                 = map_of (own_fields (section_or_empty (read_members kvs []))) m"
      by (rule add_servers_gemini_frame[OF loop])
  next
    fix sec0 assume "section_or_empty (read_members kvs []) = JObj sec0"
    with loop show "\<exists>sec1. filled = JObj sec1"
      using add_servers_gemini_object by simp
  next
    fix k :: string assume "k \<noteq> ''mcpServers''"
    then show "map_of ?cfg k = map_of (read_members kvs []) k" by (simp add: update_conv')
  next
    show "map_of ?cfg ''mcpServers'' = Some filled" by (simp add: update_conv')
  qed
  show "\<exists>out.
                  written = JObj out
                \<and> (\<forall>k. k \<noteq> ''mcpServers'' \<longrightarrow>
                      map_of out k = map_option round_trip (map_of kvs k))
                \<and> (\<forall>k v. k \<noteq> ''mcpServers'' \<and> map_of kvs k = Some v \<and> steady v \<longrightarrow>
                      map_of out k = Some v)
                \<and> (\<forall>sec. map_of kvs ''mcpServers'' = Some (JObj sec)
                          \<and> distinct (map fst sec) \<longrightarrow>
                      (\<exists>sec'. map_of out ''mcpServers'' = Some (JObj sec')
                         \<and> (\<forall>n. n \<notin> set (selectedServers this) \<longrightarrow>
                               map_of sec' n = map_option round_trip (map_of sec n))
                         \<and> (\<forall>n v. n \<notin> set (selectedServers this) \<and> map_of sec n = Some v
                                  \<and> steady v \<longrightarrow>
                               map_of sec' n = Some v)))"
    apply (rule exI[of _ "write_members ?cfg"])
    apply (rule conjI)
     apply (rule w)
    apply (rule shape)
    done
qed

text \<open>
  The amended claim at a file with a theme, a port and one server that is not selected:
  all three are written as they were, next to the entry of the selected server.
\<close>

theorem merge_preserves_config_witness:
  "distinct (map fst
     [(''theme'', JStr ''dark''), (''port'', JNum ''8080''),
      (''mcpServers'', JObj [(''other'', JObj [(''command'', JStr ''x'')])])])
   \<and> setupGeminiCLI mcpServers
       \<lparr>tokens = [], selectedServers = [''linear''], selectedClients = [''gemini''],
        dryRun = False\<rparr>
       (Existing (JObj
         [(''theme'', JStr ''dark''), (''port'', JNum ''8080''),
          (''mcpServers'', JObj [(''other'', JObj [(''command'', JStr ''x'')])])]))
       ''/tmp''
     = (True, Some (JObj
         [(''theme'', JStr ''dark''), (''port'', JNum ''8080''),
          (''mcpServers'', JObj
             [(''other'', JObj [(''command'', JStr ''x'')]),
              (''linear'', JObj [(''httpUrl'', JStr ''https://mcp.linear.app/sse'')])])]))
   \<and> steady (JStr ''dark'') \<and> steady (JNum ''8080'')
   \<and> steady (JObj [(''command'', JStr ''x'')])
   \<and> distinct (map fst [(''other'', JObj [(''command'', JStr ''x'')])])
   \<and> ''other'' \<notin> set [''linear'']
   \<and> (\<exists>out sec'.
        JObj [(''theme'', JStr ''dark''), (''port'', JNum ''8080''),
          (''mcpServers'', JObj
             [(''other'', JObj [(''command'', JStr ''x'')]),
              (''linear'', JObj [(''httpUrl'', JStr ''https://mcp.linear.app/sse'')])])]
          = JObj out
      \<and> map_of out ''theme'' = Some (JStr ''dark'')
      \<and> map_of out ''port'' = Some (JNum ''8080'')
      \<and> map_of out ''mcpServers'' = Some (JObj sec')
      \<and> map_of sec' ''other'' = Some (JObj [(''command'', JStr ''x'')]))"
proof -
  define kvs where "kvs =
     [(''theme'', JStr ''dark''), (''port'', JNum ''8080''),
      (''mcpServers'', JObj [(''other'', JObj [(''command'', JStr ''x'')])])]"
  define this where "this =
     \<lparr>tokens = [], selectedServers = [''linear''], selectedClients = [''gemini''],
      dryRun = False\<rparr>"
  define written where "written = JObj
         [(''theme'', JStr ''dark''), (''port'', JNum ''8080''),
          (''mcpServers'', JObj
             [(''other'', JObj [(''command'', JStr ''x'')]),
              (''linear'', JObj [(''httpUrl'', JStr ''https://mcp.linear.app/sse'')])])]"
  have d: "distinct (map fst kvs)" by (simp add: kvs_def)
  have g: "setupGeminiCLI mcpServers this (Existing (JObj kvs)) ''/tmp'' = (True, Some written)"
    unfolding kvs_def this_def written_def by code_simp
  have s1: "steady (JStr ''dark'')" by simp
  have s2: "steady (JNum ''8080'')" by code_simp
  have s3: "steady (JObj [(''command'', JStr ''x'')])"
    by (simp add: array_index_def is_digit_def)
  have ds: "distinct (map fst [(''other'', JObj [(''command'', JStr ''x'')])])" by simp
  have ns: "''other'' \<notin> set (selectedServers this)" by (simp add: this_def)
  have m1: "map_of kvs ''theme'' = Some (JStr ''dark'')"
    and m2: "map_of kvs ''port'' = Some (JNum ''8080'')"
    and m3: "map_of kvs ''mcpServers'' = Some (JObj [(''other'', JObj [(''command'', JStr ''x'')])])"
    by (simp_all add: kvs_def)
  from merge_preserves_config[OF d, of mcpServers this Linux "''/tmp''" written,
      THEN conjunct2, THEN mp, OF g]
  obtain out where
    o1: "written = JObj out"
    and o2: "\<forall>k v. k \<noteq> ''mcpServers'' \<and> map_of kvs k = Some v \<and> steady v \<longrightarrow>
               map_of out k = Some v"
    and o3: "\<forall>sec. map_of kvs ''mcpServers'' = Some (JObj sec) \<and> distinct (map fst sec) \<longrightarrow>
              (\<exists>sec'. map_of out ''mcpServers'' = Some (JObj sec')
                 \<and> (\<forall>n. n \<notin> set (selectedServers this) \<longrightarrow>
                       map_of sec' n = map_option round_trip (map_of sec n))
                 \<and> (\<forall>n v. n \<notin> set (selectedServers this) \<and> map_of sec n = Some v
                          \<and> steady v \<longrightarrow>
                       map_of sec' n = Some v))"
    by (elim exE conjE) (rule that; assumption)
  have t: "map_of out ''theme'' = Some (JStr ''dark'')"
    using o2[rule_format, of "''theme''" "JStr ''dark''"] m1 s1 by simp
  have p: "map_of out ''port'' = Some (JNum ''8080'')"
    using o2[rule_format, of "''port''" "JNum ''8080''"] m2 s2 by simp
  from o3[rule_format, OF conjI[OF m3 ds]] obtain sec' where
    c1: "map_of out ''mcpServers'' = Some (JObj sec')"
    and c2: "\<forall>n v. n \<notin> set (selectedServers this) \<and> map_of
               [(''other'', JObj [(''command'', JStr ''x'')])] n = Some v \<and> steady v \<longrightarrow>
                       map_of sec' n = Some v"
    by (elim exE conjE) (rule that; assumption)
  have o: "map_of sec' ''other'' = Some (JObj [(''command'', JStr ''x'')])"
    using c2[rule_format, of "''other''" "JObj [(''command'', JStr ''x'')]"] ns s3 by simp
  have ex: "\<exists>out sec'. written = JObj out
      \<and> map_of out ''theme'' = Some (JStr ''dark'')
      \<and> map_of out ''port'' = Some (JNum ''8080'')
      \<and> map_of out ''mcpServers'' = Some (JObj sec')
      \<and> map_of sec' ''other'' = Some (JObj [(''command'', JStr ''x'')])"
    using o1 t p c1 o by blast
  have ns': "''other'' \<notin> set [''linear'']" by simp
  from d g s1 s2 s3 ds ns' ex show ?thesis
    unfolding kvs_def this_def written_def by (intro conjI)
qed


end
